theory Spec2Isabelle
  imports Main "HOL-Library.Sublist" "HOL-Library.AList"
begin

chapter \<open>The MTA server updater (updater.py)\<close>

text \<open>
  The script identifies the host platform, finds the newest nightly build on a listing page,
  downloads it into a staging folder, extracts it, copies the binaries over the installed
  ones, writes a line to a log and removes the staging folder.  The model below follows
  updater.py function by function.  Every function of the script that prints, reads input
  or touches the disk becomes a function from a \<open>world\<close> to a result and a new
  \<open>world\<close>; a raised exception or a call of \<open>exit\<close> is the \<open>Inl\<close> result,
  and the world returned with it is the one the failure leaves behind.
\<close>

section \<open>Exceptions, the world, and sequencing\<close>

type_synonym path = "string list"

text \<open>
  The exceptions the script and its libraries raise.  \<open>SystemExit\<close> is what
  \<open>exit(code)\<close> raises; it derives from \<open>BaseException\<close>, not from
  \<open>Exception\<close>, so \<open>except Exception\<close> does not catch it.
\<close>

datatype exn =
    SystemExit int
  | ImportError string
  | KeyError string
  | AttributeError string
  | TypeError string
  | IndexError
  | EOFError
  | HTTPError int
  | ConnectionError
  | FileNotFoundError path
  | FileExistsError path
  | IsADirectoryError path
  | NotADirectoryError path
  | DirectoryNotEmpty path
  | SameFileError path
  | ReadError
  | OSError string
  | CalledProcessError int

fun is_Exception :: "exn \<Rightarrow> bool" where
  "is_Exception (SystemExit c) = False"
| "is_Exception e = True"

text \<open>What the script writes to standard output: a printed string, or a formatted traceback
  of an exception (\<open>traceback.format_exc()\<close> names the exception and its detail).\<close>

datatype out = Line string | Traceback exn

text \<open>Files hold bytes; a directory is a node of its own.  The file system is an association
  list from paths (lists of names, from the root) to nodes.  The root, \<open>[]\<close>, is always a
  directory.  The order of the list is the order in which the system lists a directory:
  Python documents the order of \<open>os.listdir\<close> and \<open>os.walk\<close> as arbitrary, and in the
  model it is part of the state.  Symbolic links, permissions and time stamps are not
  modelled.\<close>

datatype node = F string | D

type_synonym filesystem = "(path \<times> node) list"

record world =
  fs :: filesystem
  stdout :: "out list"
  stdin :: "string list"

type_synonym 'a io = "world \<Rightarrow> (exn + 'a) \<times> world"

definition ret :: "'a \<Rightarrow> 'a io" where
  "ret x w = (Inr x, w)"

definition raise :: "exn \<Rightarrow> 'a io" where
  "raise e w = (Inl e, w)"

definition bind :: "'a io \<Rightarrow> ('a \<Rightarrow> 'b io) \<Rightarrow> 'b io" where
  "bind m f w = (case m w of (Inl e, w') \<Rightarrow> (Inl e, w') | (Inr x, w') \<Rightarrow> f x w')"

definition seq :: "unit io \<Rightarrow> 'b io \<Rightarrow> 'b io" where
  "seq m k = bind m (\<lambda>_. k)"

definition print :: "string \<Rightarrow> unit io" where
  "print s w = (Inr (), w\<lparr>stdout := stdout w @ [Line s]\<rparr>)"

definition exit :: "int \<Rightarrow> 'a io" where
  "exit code = raise (SystemExit code)"

definition lift :: "exn + 'a \<Rightarrow> 'a io" where
  "lift r w = (r, w)"

text \<open>\<open>for x in xs: body\<close>, stopping at the first exception.\<close>

fun for_each :: "'a list \<Rightarrow> ('a \<Rightarrow> unit io) \<Rightarrow> unit io" where
  "for_each [] body = ret ()"
| "for_each (x # xs) body = seq (body x) (for_each xs body)"

section \<open>Strings\<close>

text \<open>\<open>s.split(c)\<close>: never empty, \<open>''''.split(c) = ['''']\<close>.\<close>

fun split :: "char \<Rightarrow> string \<Rightarrow> string list" where
  "split c [] = [[]]"
| "split c (x # xs) =
     (if x = c then [] # split c xs
      else (case split c xs of w # ws \<Rightarrow> (x # w) # ws | [] \<Rightarrow> [[x]]))"

definition startswith :: "string \<Rightarrow> string \<Rightarrow> bool" where
  "startswith s pre = prefix pre s"

definition endswith :: "string \<Rightarrow> string \<Rightarrow> bool" where
  "endswith s suf = suffix suf s"

definition digit :: "nat \<Rightarrow> char" where
  "digit n = char_of (48 + n)"

fun str_nat :: "nat \<Rightarrow> string" where
  "str_nat n = (if n < 10 then [digit n] else str_nat (n div 10) @ [digit (n mod 10)])"

definition str_int :: "int \<Rightarrow> string" where
  "str_int i = (if i < 0 then CHR ''-'' # str_nat (nat (- i)) else str_nat (nat i))"

definition nl :: string where
  "nl = [char_of (10::nat)]"

definition str_bool :: "bool \<Rightarrow> string" where
  "str_bool b = (if b then ''True'' else ''False'')"

text \<open>\<open>os.path.join(p, s)\<close> on paths kept as lists of names: the names of \<open>s\<close> follow
  those of \<open>p\<close>; an empty name and \<open>.\<close> name the directory itself (\<open>a/./\<close> and
  \<open>a/\<close> are \<open>a\<close>).  A name \<open>..\<close> is not resolved.\<close>

definition path_of :: "string \<Rightarrow> path" where
  "path_of s = filter (\<lambda>n. n \<noteq> [] \<and> n \<noteq> ''.'') (split CHR ''/'' s)"

definition join :: "path \<Rightarrow> string \<Rightarrow> path" where
  "join p s = p @ path_of s"

text \<open>\<open>os.path.dirname\<close> and \<open>os.path.relpath(p, start)\<close>.\<close>

definition dirname :: "path \<Rightarrow> path" where
  "dirname p = butlast p"

definition relpath :: "path \<Rightarrow> path \<Rightarrow> path" where
  "relpath p start =
     (let n = length (longest_common_prefix p start)
      in replicate (length start - n) ''..'' @ drop n p)"

section \<open>The platform tables (module level, lines 23 to 104)\<close>

text \<open>A value of \<open>BUILD_STRINGS\<close> is a string or \<open>False\<close>.\<close>

datatype build_val = Str string | PyFalse

fun falsy :: "build_val \<Rightarrow> bool" where
  "falsy PyFalse = True"
| "falsy (Str s) = (s = [])"

definition dict_get :: "(string \<times> 'v) list \<Rightarrow> string \<Rightarrow> exn + 'v" where
  "dict_get d k = (case map_of d k of None \<Rightarrow> Inl (KeyError k) | Some v \<Rightarrow> Inr v)"

definition dict_get3 ::
  "(string \<times> (string \<times> (string \<times> 'v) list) list) list \<Rightarrow> string \<Rightarrow> string \<Rightarrow> string \<Rightarrow> exn + 'v"
where
  "dict_get3 d a b c =
     (case dict_get d a of Inl e \<Rightarrow> Inl e
      | Inr d1 \<Rightarrow> (case dict_get d1 b of Inl e \<Rightarrow> Inl e | Inr d2 \<Rightarrow> dict_get d2 c))"

definition BUILD_STRINGS :: "(string \<times> (string \<times> (string \<times> build_val) list) list) list" where
  "BUILD_STRINGS =
     [(''arm'',
        [(''Windows'', [(''64'', Str ''Windows arm64 server''), (''32'', PyFalse)]),
         (''Linux'', [(''64'', Str ''Linux arm64 server''), (''32'', Str ''Linux arm server'')])]),
      (''x86'',
        [(''Windows'', [(''64'', Str ''Windows 64 bit server''),
                        (''32'', Str ''Windows nightly installer (Win10+)'')]),
         (''Linux'', [(''64'', Str ''Linux 64 bit server''), (''32'', Str ''Linux 32 bit server'')])])]"

definition EXEC_FILE_NAMES :: "(string \<times> (string \<times> (string \<times> string) list) list) list" where
  "EXEC_FILE_NAMES =
     [(''arm'',
        [(''Windows'', [(''64'', ''MTA Server ARM64.exe'')]),
         (''Linux'', [(''64'', ''mta-server-arm64''), (''32'', ''mta-server-arm'')])]),
      (''x86'',
        [(''Windows'', [(''64'', ''MTA Server64.exe''), (''32'', ''MTA Server.exe'')]),
         (''Linux'', [(''64'', ''mta-server64''), (''32'', ''mta-server'')])])]"

definition SERVER_BINARIES_LOCATIONS :: "(string \<times> (string \<times> (string \<times> string) list) list) list" where
  "SERVER_BINARIES_LOCATIONS =
     [(''arm'',
        [(''Windows'', [(''64'', ''arm64'')]),
         (''Linux'', [(''64'', ''arm64''), (''32'', ''arm'')])]),
      (''x86'',
        [(''Windows'', [(''64'', ''x64''), (''32'', ''./'')]),
         (''Linux'', [(''64'', ''x64''), (''32'', ''./'')])])]"

text \<open>What the host reports: \<open>platform.system()\<close>, \<open>platform.machine()\<close> and whether
  \<open>sys.maxsize > 2**32\<close>; and the module that fails to import, if any.\<close>

record host =
  os_system :: string
  machine :: string
  is_64_bit :: bool
  missing_module :: "string option"

definition cpu_arch :: "host \<Rightarrow> string" where
  "cpu_arch h = (if startswith (machine h) ''arm'' then ''arm'' else ''x86'')"

definition os_name :: "host \<Rightarrow> string" where
  "os_name h = (if os_system h = ''Windows'' then ''Windows'' else ''Linux'')"

definition cpu_bits :: "host \<Rightarrow> string" where
  "cpu_bits h = (if is_64_bit h then ''64'' else ''32'')"

text \<open>The three module constants the rest of the script reads.\<close>

record profile =
  BUILD_STRING :: string
  EXEC_FILE_NAME :: string
  SERVER_BINARIES_LOCATION :: string

text \<open>Lines 55 to 104 for a key \<open>(arch, os, bits)\<close>: the label is looked up first, and a
  falsy label prints the message and exits with code 1 before the other two tables are read.\<close>

definition resolve :: "string \<Rightarrow> string \<Rightarrow> string \<Rightarrow> profile io" where
  "resolve arch os bits =
     bind (lift (dict_get3 BUILD_STRINGS arch os bits)) (\<lambda>build_string.
       if falsy build_string then
         seq (print (''This script is not compatible with your system ('' @ os @ '' '' @ bits @ '' bit).''))
             (exit 1)
       else
         bind (lift (dict_get3 EXEC_FILE_NAMES arch os bits)) (\<lambda>exec_file_name.
         bind (lift (dict_get3 SERVER_BINARIES_LOCATIONS arch os bits)) (\<lambda>location.
           ret \<lparr>BUILD_STRING = (case build_string of Str s \<Rightarrow> s | PyFalse \<Rightarrow> []),
                EXEC_FILE_NAME = exec_file_name,
                SERVER_BINARIES_LOCATION = location\<rparr>)))"

text \<open>The module level: the guarded imports (lines 8 to 21), then the tables.\<close>

definition module_init :: "host \<Rightarrow> profile io" where
  "module_init h =
     (case missing_module h of
        Some name \<Rightarrow> seq (print (''You are missing the following module(s): '' @ name)) (exit 1)
      | None \<Rightarrow> resolve (cpu_arch h) (os_name h) (cpu_bits h))"

section \<open>The outside world\<close>

text \<open>The document tree that \<open>BeautifulSoup(content, 'html.parser')\<close> builds: a tag has a
  name, attributes and children; text is a \<open>NavigableString\<close>.  The parser stores the
  \<open>class\<close> attribute as a list of names and every other attribute of the listing page as a
  string.\<close>

datatype attr_val = AStr string | AList "string list"

datatype elem = Tag string "(string \<times> attr_val) list" "elem list" | NavigableString string

text \<open>An HTTP response: the status code, the body in the chunks \<open>iter_content\<close> yields, and
  the transport error that ends the body early, if any.\<close>

record response =
  status_code :: int
  chunks :: "string list"
  stream_error :: "exn option"

record datetime =
  year :: nat
  month :: nat
  day :: nat
  hour :: nat
  minute :: nat
  second :: nat

text \<open>Everything the script reads from outside and does not change: the host, the command
  line, the working directory, the web (a transport failure is the \<open>Inl\<close> answer), the HTML
  parser, whether \<open>7z\<close> is on the PATH, the members of an archive as the tar reader and
  \<open>7z\<close> decode them (\<open>None\<close> for bytes that are no such archive; member paths are
  relative and stay inside the destination), and the clock.\<close>

record env =
  the_host :: host
  argv :: "string list"
  getcwd :: string
  http :: "string \<Rightarrow> exn + response"
  html_parser :: "string \<Rightarrow> elem"
  which_7z :: bool
  tar_members :: "string \<Rightarrow> (path \<times> node) list option"
  sevenzip_members :: "string \<Rightarrow> (path \<times> node) list option"
  now :: datetime

text \<open>\<open>requests.get(url)\<close> reads the whole body before it returns, so a transport error in
  the body is raised by the call; \<open>requests.get(url, stream=True)\<close> returns after the
  headers.\<close>

definition requests_get :: "env \<Rightarrow> string \<Rightarrow> bool \<Rightarrow> response io" where
  "requests_get E url stream =
     (case http E url of
        Inl e \<Rightarrow> raise e
      | Inr r \<Rightarrow> (if stream then ret r
                 else (case stream_error r of Some e \<Rightarrow> raise e | None \<Rightarrow> ret r)))"

definition content :: "response \<Rightarrow> string" where
  "content r = concat (chunks r)"

section \<open>Searching the document tree (the BeautifulSoup calls of fetch_exe_url)\<close>

text \<open>Everything below a node, in document order.\<close>

fun descendants :: "elem \<Rightarrow> elem list" where
  "descendants (NavigableString s) = []"
| "descendants (Tag n as cs) = concat (map (\<lambda>c. c # descendants c) cs)"

text \<open>\<open>tag.string\<close>: the text of a tag with a single child, followed through single
  children; \<open>None\<close> for a tag with no child or several.\<close>

fun tag_string :: "elem \<Rightarrow> string option" where
  "tag_string (NavigableString s) = Some s"
| "tag_string (Tag n as []) = None"
| "tag_string (Tag n as [c]) = tag_string c"
| "tag_string (Tag n as (c # d # cs)) = None"

fun is_tag :: "string \<Rightarrow> elem \<Rightarrow> bool" where
  "is_tag name (Tag n as cs) = (n = name)"
| "is_tag name (NavigableString s) = False"

fun attrs :: "elem \<Rightarrow> (string \<times> attr_val) list" where
  "attrs (Tag n as cs) = as"
| "attrs (NavigableString s) = []"

definition get_attr :: "elem \<Rightarrow> string \<Rightarrow> attr_val option" where
  "get_attr e k = map_of (attrs e) k"

text \<open>How a search for \<open>class_='file'\<close> matches the attribute: one of its names is the
  string, or the names joined by blanks are; an absent attribute does not match.\<close>

fun unwords :: "string list \<Rightarrow> string" where
  "unwords [] = []"
| "unwords [w] = w"
| "unwords (w # v # ws) = w @ '' '' @ unwords (v # ws)"

fun class_matches :: "attr_val option \<Rightarrow> string \<Rightarrow> bool" where
  "class_matches None c = False"
| "class_matches (Some (AStr s)) c = (s = c)"
| "class_matches (Some (AList names)) c = (c \<in> set names \<or> unwords names = c)"

text \<open>The first node of a list that matches, with the nodes after it.\<close>

fun find_first :: "(elem \<Rightarrow> bool) \<Rightarrow> elem list \<Rightarrow> (elem \<times> elem list) option" where
  "find_first P [] = None"
| "find_first P (e # es) = (if P e then Some (e, es) else find_first P es)"

text \<open>\<open>soup.find('td', string=label)\<close>: the first \<open>td\<close> in document order whose
  \<open>.string\<close> is the label.  The answer keeps the rest of the document after the cell,
  which is what \<open>find_next\<close> walks.\<close>

definition is_label_cell :: "string \<Rightarrow> elem \<Rightarrow> bool" where
  "is_label_cell label e = (is_tag ''td'' e \<and> tag_string e = Some label)"

definition soup_find_td :: "elem \<Rightarrow> string \<Rightarrow> (elem \<times> elem list) option" where
  "soup_find_td soup label = find_first (is_label_cell label) (descendants soup)"

text \<open>\<open>td.find_next('table')\<close>: the first table after the start of the cell, in document
  order (inside the cell or after it).\<close>

definition find_next_table :: "elem \<times> elem list \<Rightarrow> elem option" where
  "find_next_table td = map_option fst (find_first (is_tag ''table'') (snd td))"

text \<open>\<open>table.find('tr', class_='file', style=lambda x: x is None)\<close>: the first row below
  the table with class \<open>file\<close> whose \<open>style\<close> attribute is absent.\<close>

definition is_file_row :: "elem \<Rightarrow> bool" where
  "is_file_row e = (is_tag ''tr'' e \<and> class_matches (get_attr e ''class'') ''file'')"

definition is_shown_file_row :: "elem \<Rightarrow> bool" where
  "is_shown_file_row e = (is_file_row e \<and> get_attr e ''style'' = None)"

definition table_find_tr :: "elem \<Rightarrow> elem option" where
  "table_find_tr table = map_option fst (find_first is_shown_file_row (descendants table))"

definition tr_find_a :: "elem \<Rightarrow> elem option" where
  "tr_find_a tr = map_option fst (find_first (is_tag ''a'') (descendants tr))"

text \<open>A method called on \<open>None\<close> raises \<open>AttributeError\<close>; \<open>None['href']\<close> raises
  \<open>TypeError\<close>; \<open>a['href']\<close> on a tag without the attribute raises \<open>KeyError\<close>.\<close>

definition method_of :: "'a option \<Rightarrow> string \<Rightarrow> ('a \<Rightarrow> 'b) \<Rightarrow> exn + 'b" where
  "method_of obj name f =
     (case obj of
        None \<Rightarrow> Inl (AttributeError (''NoneType object has no attribute '' @ name))
      | Some x \<Rightarrow> Inr (f x))"

definition subscript :: "elem option \<Rightarrow> string \<Rightarrow> exn + attr_val" where
  "subscript obj k =
     (case obj of
        None \<Rightarrow> Inl (TypeError ''NoneType object is not subscriptable'')
      | Some a \<Rightarrow> (case get_attr a k of None \<Rightarrow> Inl (KeyError k) | Some v \<Rightarrow> Inr v))"

text \<open>An attribute value inside an f-string.\<close>

fun str_attr :: "attr_val \<Rightarrow> string" where
  "str_attr (AStr s) = s"
| "str_attr (AList names) = ''['' @ unwords names @ '']''"

section \<open>fetch_exe_url (lines 122 to 145)\<close>

definition nightly_url :: string where
  "nightly_url = ''https://nightly.multitheftauto.com/''"

text \<open>The five steps from the parsed page to the link, lines 129 to 142.\<close>

definition find_href :: "elem \<Rightarrow> string \<Rightarrow> exn + string" where
  "find_href soup label =
     (let td = soup_find_td soup label in
      case method_of td ''find_next'' find_next_table of Inl e \<Rightarrow> Inl e | Inr table \<Rightarrow>
      case method_of table ''find'' table_find_tr of Inl e \<Rightarrow> Inl e | Inr tr \<Rightarrow>
      case method_of tr ''find'' tr_find_a of Inl e \<Rightarrow> Inl e | Inr a \<Rightarrow>
      case subscript a ''href'' of Inl e \<Rightarrow> Inl e | Inr href \<Rightarrow>
      Inr (nightly_url @ str_attr href))"

definition fetch_exe_url :: "env \<Rightarrow> profile \<Rightarrow> string io" where
  "fetch_exe_url E P =
     bind (requests_get E nightly_url False) (\<lambda>response.
       if status_code response \<noteq> 200 then
         seq (print (''Error fetching the nightly builds page: Website responded with code ''
                      @ str_int (status_code response)))
             (exit 1)
       else
         bind (lift (find_href (html_parser E (content response)) (BUILD_STRING P))) (\<lambda>final_url.
         seq (print (nl @ ''Latest nightly build found: '' @ BUILD_STRING P @ '' @ '' @ final_url))
             (ret final_url)))"

section \<open>The file system calls\<close>

definition lookup :: "filesystem \<Rightarrow> path \<Rightarrow> node option" where
  "lookup f p = (if p = [] then Some D else map_of f p)"

definition path_exists :: "filesystem \<Rightarrow> path \<Rightarrow> bool" where
  "path_exists f p = (lookup f p \<noteq> None)"

definition isdir :: "filesystem \<Rightarrow> path \<Rightarrow> bool" where
  "isdir f p = (lookup f p = Some D)"

definition file_at :: "filesystem \<Rightarrow> path \<Rightarrow> string option" where
  "file_at f p = (case lookup f p of Some (F c) \<Rightarrow> Some c | _ \<Rightarrow> None)"

text \<open>The names in a directory, in the order the system lists them.\<close>

definition names_in :: "filesystem \<Rightarrow> path \<Rightarrow> string list" where
  "names_in f p = map (last \<circ> fst) (filter (\<lambda>(q, n). q \<noteq> [] \<and> butlast q = p) f)"

definition basename :: "path \<Rightarrow> string" where
  "basename p = (if p = [] then [] else last p)"

definition str_path :: "path \<Rightarrow> string" where
  "str_path p = concat (map (\<lambda>n. CHR ''/'' # n) p)"

text \<open>Running a step only when a test of the file system holds (\<open>if test: step\<close>).\<close>

definition when_fs :: "(filesystem \<Rightarrow> bool) \<Rightarrow> unit io \<Rightarrow> unit io" where
  "when_fs c m w = (if c (fs w) then m w else (Inr (), w))"

definition put :: "path \<Rightarrow> node \<Rightarrow> unit io" where
  "put p n w = (Inr (), w\<lparr>fs := AList.update p n (fs w)\<rparr>)"

text \<open>What stops a path from being created: its parent is missing or is a file.\<close>

definition parent_error :: "filesystem \<Rightarrow> path \<Rightarrow> exn option" where
  "parent_error f p =
     (case lookup f (butlast p) of
        None \<Rightarrow> Some (FileNotFoundError p)
      | Some (F c) \<Rightarrow> Some (NotADirectoryError p)
      | Some D \<Rightarrow> None)"

definition os_listdir :: "path \<Rightarrow> string list io" where
  "os_listdir p w =
     (case lookup (fs w) p of
        Some D \<Rightarrow> (Inr (names_in (fs w) p), w)
      | Some (F c) \<Rightarrow> (Inl (NotADirectoryError p), w)
      | None \<Rightarrow> (Inl (FileNotFoundError p), w))"

definition os_mkdir :: "path \<Rightarrow> unit io" where
  "os_mkdir p w =
     (if path_exists (fs w) p then (Inl (FileExistsError p), w)
      else (case parent_error (fs w) p of Some e \<Rightarrow> (Inl e, w) | None \<Rightarrow> put p D w))"

text \<open>\<open>os.makedirs(p)\<close>: the missing parent is made first, by the same call, and a
  \<open>FileExistsError\<close> from that call is ignored; then \<open>p\<close> itself is made.\<close>

fun os_makedirs :: "path \<Rightarrow> unit io" where
  "os_makedirs p w =
     (if p \<noteq> [] \<and> \<not> path_exists (fs w) (butlast p) then
        (case os_makedirs (butlast p) w of
           (Inl (FileExistsError q), w') \<Rightarrow> os_mkdir p w'
         | (Inl e, w') \<Rightarrow> (Inl e, w')
         | (Inr u, w') \<Rightarrow> os_mkdir p w')
      else os_mkdir p w)"

definition os_remove :: "path \<Rightarrow> unit io" where
  "os_remove p w =
     (case lookup (fs w) p of
        Some (F c) \<Rightarrow> (Inr (), w\<lparr>fs := AList.delete p (fs w)\<rparr>)
      | Some D \<Rightarrow> (Inl (IsADirectoryError p), w)
      | None \<Rightarrow> (Inl (FileNotFoundError p), w))"

text \<open>\<open>shutil.rmtree(p)\<close>: the directory and everything below it.\<close>

definition shutil_rmtree :: "path \<Rightarrow> unit io" where
  "shutil_rmtree p w =
     (case lookup (fs w) p of
        Some D \<Rightarrow> (Inr (), w\<lparr>fs := filter (\<lambda>(q, n). \<not> prefix p q) (fs w)\<rparr>)
      | Some (F c) \<Rightarrow> (Inl (NotADirectoryError p), w)
      | None \<Rightarrow> (Inl (FileNotFoundError p), w))"

text \<open>\<open>open(p, 'wb')\<close> makes the file or empties it; \<open>open(p, 'a')\<close> makes it or keeps
  it; \<open>f.write(data)\<close> adds bytes at its end; \<open>open(p, 'rb').read()\<close> reads it.\<close>

definition open_wb :: "path \<Rightarrow> unit io" where
  "open_wb p w =
     (case lookup (fs w) p of
        Some D \<Rightarrow> (Inl (IsADirectoryError p), w)
      | Some (F c) \<Rightarrow> put p (F []) w
      | None \<Rightarrow> (case parent_error (fs w) p of Some e \<Rightarrow> (Inl e, w) | None \<Rightarrow> put p (F []) w))"

definition open_a :: "path \<Rightarrow> unit io" where
  "open_a p w =
     (case lookup (fs w) p of
        Some D \<Rightarrow> (Inl (IsADirectoryError p), w)
      | Some (F c) \<Rightarrow> (Inr (), w)
      | None \<Rightarrow> (case parent_error (fs w) p of Some e \<Rightarrow> (Inl e, w) | None \<Rightarrow> put p (F []) w))"

definition file_write :: "path \<Rightarrow> string \<Rightarrow> unit io" where
  "file_write p data w =
     (case lookup (fs w) p of
        Some (F c) \<Rightarrow> put p (F (c @ data)) w
      | Some D \<Rightarrow> (Inl (IsADirectoryError p), w)
      | None \<Rightarrow> (Inl (FileNotFoundError p), w))"

definition read_file :: "path \<Rightarrow> string io" where
  "read_file p w =
     (case lookup (fs w) p of
        Some (F c) \<Rightarrow> (Inr c, w)
      | Some D \<Rightarrow> (Inl (IsADirectoryError p), w)
      | None \<Rightarrow> (Inl (FileNotFoundError p), w))"

text \<open>\<open>shutil.copy2(src, dst)\<close>: a destination that is a directory receives the file under
  its own name; the source is opened before the destination.\<close>

definition shutil_copy2 :: "path \<Rightarrow> path \<Rightarrow> unit io" where
  "shutil_copy2 src dst w =
     (let dst' = (if isdir (fs w) dst then join dst (basename src) else dst) in
      if src = dst' \<and> path_exists (fs w) src then (Inl (SameFileError src), w)
      else bind (read_file src) (\<lambda>data. seq (open_wb dst') (file_write dst' data)) w)"

text \<open>\<open>os.rename(src, dst)\<close> as POSIX has it: a file replaces a file, a directory replaces
  an empty directory, and everything below a renamed directory moves with it.\<close>

definition move_entry :: "path \<Rightarrow> path \<Rightarrow> path \<times> node \<Rightarrow> path \<times> node" where
  "move_entry src dst e = (if prefix src (fst e) then (dst @ drop (length src) (fst e), snd e) else e)"

definition os_rename :: "path \<Rightarrow> path \<Rightarrow> unit io" where
  "os_rename src dst w =
     (case lookup (fs w) src of
        None \<Rightarrow> (Inl (FileNotFoundError src), w)
      | Some s \<Rightarrow>
         (if src = [] \<or> dst = [] \<or> strict_prefix src dst then (Inl (OSError ''Invalid argument''), w)
          else if src = dst then (Inr (), w)
          else (case parent_error (fs w) dst of
             Some e \<Rightarrow> (Inl e, w)
           | None \<Rightarrow>
              (case (s, lookup (fs w) dst) of
                 (F c, Some D) \<Rightarrow> (Inl (IsADirectoryError dst), w)
               | (D, Some (F c)) \<Rightarrow> (Inl (NotADirectoryError dst), w)
               | (D, Some D) \<Rightarrow>
                   (if names_in (fs w) dst \<noteq> [] then (Inl (DirectoryNotEmpty dst), w)
                    else (Inr (), w\<lparr>fs := map (move_entry src dst) (AList.delete dst (fs w))\<rparr>))
               | _ \<Rightarrow> (Inr (), w\<lparr>fs := map (move_entry src dst) (AList.delete dst (fs w))\<rparr>)))))"

text \<open>Writing one archive member below a destination, as \<open>tarfile\<close> does: missing parent
  directories are made, a directory that is there already is kept, a file is written over
  what is there.\<close>

definition extract_member :: "path \<Rightarrow> path \<times> node \<Rightarrow> unit io" where
  "extract_member dest m =
     (let target = dest @ fst m in
      seq (when_fs (\<lambda>f. \<not> path_exists f (dirname target)) (os_makedirs (dirname target)))
          (case snd m of
             D \<Rightarrow> when_fs (\<lambda>f. \<not> isdir f target) (os_mkdir target)
           | F c \<Rightarrow> seq (open_wb target) (file_write target c)))"

text \<open>\<open>for root, dirs, files in os.walk(top): body\<close>.  The walk keeps a stack of the
  directories still to visit.  It lists a directory when it reaches it (a path that cannot be
  listed is skipped without an error), hands the listing to the body, and then puts the
  sub-directories it listed on the stack, the first one on top.  The body may change the file
  system while the walk runs, so the number of directories visited is not bounded by the
  tree at the start: the first argument bounds it, and \<open>None\<close> is a walk that did not
  finish within the bound.\<close>

fun walk_for :: "nat \<Rightarrow> path list \<Rightarrow> (path \<Rightarrow> string list \<Rightarrow> string list \<Rightarrow> unit io)
                 \<Rightarrow> world \<Rightarrow> ((exn + unit) \<times> world) option" where
  "walk_for n [] body w = Some (Inr (), w)"
| "walk_for 0 (r # stack) body w = None"
| "walk_for (Suc n) (r # stack) body w =
     (if \<not> isdir (fs w) r then walk_for n stack body w
      else
        (let names = names_in (fs w) r;
             dirs = filter (\<lambda>d. isdir (fs w) (r @ [d])) names;
             nondirs = filter (\<lambda>d. \<not> isdir (fs w) (r @ [d])) names
         in case body r dirs nondirs w of
              (Inl e, w') \<Rightarrow> Some (Inl e, w')
            | (Inr u, w') \<Rightarrow> walk_for n (map (\<lambda>d. r @ [d]) dirs @ stack) body w'))"

text \<open>Steps that may not finish within a bound, in sequence.\<close>

type_synonym 'a pio = "world \<Rightarrow> ((exn + 'a) \<times> world) option"

definition total :: "'a io \<Rightarrow> 'a pio" where
  "total m w = Some (m w)"

definition pbind :: "'a pio \<Rightarrow> ('a \<Rightarrow> 'b pio) \<Rightarrow> 'b pio" where
  "pbind m f w =
     (case m w of
        None \<Rightarrow> None
      | Some (Inl e, w') \<Rightarrow> Some (Inl e, w')
      | Some (Inr x, w') \<Rightarrow> f x w')"

definition pseq :: "unit pio \<Rightarrow> 'b pio \<Rightarrow> 'b pio" where
  "pseq m k = pbind m (\<lambda>_. k)"

definition get_fs :: "filesystem io" where
  "get_fs w = (Inr (fs w), w)"

text \<open>\<open>input(prompt)\<close> writes the prompt and reads a line; at the end of input it raises
  \<open>EOFError\<close>.\<close>

definition input :: "string \<Rightarrow> string io" where
  "input prompt w =
     (case stdin w of
        [] \<Rightarrow> (Inl EOFError, w\<lparr>stdout := stdout w @ [Line prompt]\<rparr>)
      | l # ls \<Rightarrow> (Inr l, w\<lparr>stdout := stdout w @ [Line prompt], stdin := ls\<rparr>))"

definition lower :: "string \<Rightarrow> string" where
  "lower s = map (\<lambda>c. if 65 \<le> (of_char c :: nat) \<and> (of_char c :: nat) \<le> 90
                        then char_of ((of_char c :: nat) + 32) else c) s"

definition apostrophe :: string where
  "apostrophe = [char_of (39::nat)]"

text \<open>The path a path string names: from the root when it starts with a slash, from the working
  directory otherwise.\<close>

definition abspath :: "env \<Rightarrow> string \<Rightarrow> path" where
  "abspath E s = (if startswith s ''/'' then [] else path_of (getcwd E)) @ path_of s"

section \<open>The functions of the script (lines 106 to 222)\<close>

definition ask_for_server_folder :: "env \<Rightarrow> profile \<Rightarrow> string io" where
  "ask_for_server_folder E P =
     bind (input (nl @ ''Enter the server folder path, where MTA Server 64.exe is (leave empty to use current folder): ''))
       (\<lambda>answer.
     let server_folder = (if answer = [] then getcwd E else answer) in
     bind get_fs (\<lambda>f.
     if \<not> path_exists f (abspath E server_folder) then
       seq (print ''That folder path does not exist.'') (exit 1)
     else
       let server_exe = join (abspath E server_folder) (EXEC_FILE_NAME P) in
       if \<not> path_exists f server_exe then
         seq (print (nl @ EXEC_FILE_NAME P @ '' not found in the specified folder. Are you sure you specified the right folder?''))
        (bind (input (''   Type '' @ apostrophe @ ''yes'' @ apostrophe @ '' to continue: '')) (\<lambda>reply.
           if lower reply \<noteq> ''yes'' then exit 0 else ret server_folder))
       else ret server_folder))"

definition prepare_updateinfo_folder :: "path \<Rightarrow> path io" where
  "prepare_updateinfo_folder server_folder =
     (let updateinfo_folder = join server_folder ''updateinfo'' in
      seq (when_fs (\<lambda>f. \<not> path_exists f updateinfo_folder) (os_makedirs updateinfo_folder))
          (ret updateinfo_folder))"

text \<open>\<open>r.raise_for_status()\<close> raises for the status codes 400 to 599 and for no other.\<close>

definition raise_for_status :: "response \<Rightarrow> unit io" where
  "raise_for_status r =
     (if 400 \<le> status_code r \<and> status_code r < 600 then raise (HTTPError (status_code r))
      else ret ())"

definition download_file :: "env \<Rightarrow> string \<Rightarrow> path \<Rightarrow> path io" where
  "download_file E url dest_folder =
     (let local_filename = join dest_folder (last (split CHR ''/'' url)) in
      bind (requests_get E url True) (\<lambda>r.
      seq (raise_for_status r)
     (seq (open_wb local_filename)
     (seq (for_each (chunks r) (\<lambda>chunk. file_write local_filename chunk))
     (seq (case stream_error r of Some e \<Rightarrow> raise e | None \<Rightarrow> ret ())
          (ret local_filename))))))"

text \<open>\<open>7z x file server/* -odest -y\<close> under \<open>check=True\<close>: the members below
  \<open>server\<close> are written under the destination; bytes that are no archive, or a member
  that cannot be written, make \<open>7z\<close> end with a non-zero status, which
  \<open>subprocess.run\<close> raises as \<open>CalledProcessError\<close>.\<close>

definition run_7z :: "env \<Rightarrow> path \<Rightarrow> path \<Rightarrow> unit io" where
  "run_7z E file_path dest_folder w =
     (case bind (read_file file_path) (\<lambda>bytes.
             case sevenzip_members E bytes of
               None \<Rightarrow> raise ReadError
             | Some ms \<Rightarrow> for_each (filter (\<lambda>m. strict_prefix [''server''] (fst m)) ms)
                                    (extract_member dest_folder)) w of
        (Inl e, w') \<Rightarrow> (Inl (CalledProcessError 2), w')
      | (Inr u, w') \<Rightarrow> (Inr (), w'))"

text \<open>\<open>with tarfile.open(file_path, 'r:gz') as tar: tar.extractall(dest_folder)\<close>.\<close>

definition tar_extractall :: "env \<Rightarrow> path \<Rightarrow> path \<Rightarrow> unit io" where
  "tar_extractall E file_path dest_folder =
     bind (read_file file_path) (\<lambda>bytes.
       case tar_members E bytes of
         None \<Rightarrow> raise ReadError
       | Some ms \<Rightarrow> for_each ms (extract_member dest_folder))"

text \<open>\<open>xs[0]\<close>.\<close>

definition first_item :: "'a list \<Rightarrow> exn + 'a" where
  "first_item xs = (case xs of [] \<Rightarrow> Inl IndexError | x # _ \<Rightarrow> Inr x)"

definition extract_files :: "env \<Rightarrow> path \<Rightarrow> path \<Rightarrow> unit io" where
  "extract_files E file_path dest_folder =
     (if endswith (basename file_path) ''.exe'' then
        (if \<not> which_7z E then
           seq (print ''7z is required to extract the downloaded file. Please install 7z and add it to PATH.'')
               (exit 1)
         else run_7z E file_path dest_folder)
      else if endswith (basename file_path) ''.tar.gz'' then
        seq (tar_extractall E file_path dest_folder)
       (bind (os_listdir dest_folder) (\<lambda>names.
        bind (lift (first_item names)) (\<lambda>first_name.
        let extracted_folder = join dest_folder first_name in
        os_rename extracted_folder (join dest_folder ''server''))))
      else
        seq (print (''Unsupported file format: '' @ str_path file_path)) (exit 1))"

definition is_library :: "string \<Rightarrow> bool" where
  "is_library file = (endswith file ''.dll'' \<or> endswith file ''.so'')"

text \<open>The body of the copy loop of update_server, for one file of one directory.\<close>

definition copy_library :: "path \<Rightarrow> path \<Rightarrow> path \<Rightarrow> string \<Rightarrow> unit io" where
  "copy_library binaries_folder dest_binaries_folder root file =
     (if \<not> is_library file then ret ()
      else
        let src_file = join root file;
            dest_file = dest_binaries_folder @ relpath src_file binaries_folder
        in seq (when_fs (\<lambda>f. \<not> path_exists f (dirname dest_file)) (os_makedirs (dirname dest_file)))
               (shutil_copy2 src_file dest_file))"

definition update_server :: "nat \<Rightarrow> profile \<Rightarrow> path \<Rightarrow> path \<Rightarrow> unit pio" where
  "update_server n P updateinfo_folder server_folder =
     (let source_folder = join updateinfo_folder ''server'';
          binaries_folder = join source_folder (SERVER_BINARIES_LOCATION P);
          server_exe = join source_folder (EXEC_FILE_NAME P);
          dest_binaries_folder = join server_folder (SERVER_BINARIES_LOCATION P);
          dest_server_exe = join server_folder (EXEC_FILE_NAME P)
      in pseq (walk_for n [binaries_folder]
                 (\<lambda>root dirs files.
                    for_each files (copy_library binaries_folder dest_binaries_folder root)))
        (total (seq (when_fs (\<lambda>f. path_exists f dest_server_exe) (os_remove dest_server_exe))
                    (shutil_copy2 server_exe dest_server_exe))))"

text \<open>\<open>strftime("%Y-%m-%d %H:%M:%S")\<close>: the year in four digits, the other fields in two.\<close>

definition zfill :: "nat \<Rightarrow> string \<Rightarrow> string" where
  "zfill n s = replicate (n - length s) CHR ''0'' @ s"

definition strftime :: "datetime \<Rightarrow> string" where
  "strftime d =
     zfill 4 (str_nat (year d)) @ ''-'' @ zfill 2 (str_nat (month d)) @ ''-'' @ zfill 2 (str_nat (day d))
     @ '' '' @ zfill 2 (str_nat (hour d)) @ '':'' @ zfill 2 (str_nat (minute d)) @ '':''
     @ zfill 2 (str_nat (second d))"

definition log_line :: "env \<Rightarrow> string \<Rightarrow> string" where
  "log_line E url =
     strftime (now E) @ '' - Server updated with '' @ last (split CHR ''/'' url)
     @ '' | Python MTA Server Updater'' @ nl"

definition log_update :: "env \<Rightarrow> path \<Rightarrow> string \<Rightarrow> unit io" where
  "log_update E server_folder url =
     (let log_file = join server_folder ''updates.log'' in
      seq (open_a log_file) (file_write log_file (log_line E url)))"

definition delete_folder :: "path \<Rightarrow> unit io" where
  "delete_folder folder =
     when_fs (\<lambda>f. path_exists f folder \<and> isdir f folder) (shutil_rmtree folder)"

definition clear_folder :: "nat \<Rightarrow> path \<Rightarrow> unit pio" where
  "clear_folder n folder w =
     (if path_exists (fs w) folder \<and> isdir (fs w) folder then
        walk_for n [folder]
          (\<lambda>root dirs files. for_each files (\<lambda>file. os_remove (join root file))) w
      else Some (Inr (), w))"

section \<open>The main block (lines 224 to 263)\<close>

text \<open>Lines 230 to 239: the folder from the command line, or from the prompt.\<close>

definition choose_server_folder :: "env \<Rightarrow> profile \<Rightarrow> string io" where
  "choose_server_folder E P =
     (case first_item (argv E) of
        Inr provided_server_folder \<Rightarrow>
          (if provided_server_folder \<noteq> [] then
             bind get_fs (\<lambda>f.
               if \<not> path_exists f (abspath E provided_server_folder) then
                 seq (print (''The provided server folder path does not exist: '' @ provided_server_folder))
                     (exit 1)
               else seq (print (nl @ ''Using provided server folder: '' @ provided_server_folder))
                        (ret provided_server_folder))
           else ask_for_server_folder E P)
      | Inl e \<Rightarrow> ask_for_server_folder E P)"

text \<open>Lines 251 to 260: extraction, installation, the log line, the removal of the staging
  folder.\<close>

definition install :: "nat \<Rightarrow> env \<Rightarrow> profile \<Rightarrow> path \<Rightarrow> string \<Rightarrow> path \<Rightarrow> path \<Rightarrow> unit pio" where
  "install n E P server_folder url updateinfo_folder downloaded_file =
     pseq (total (print (nl @ ''Extracting the downloaded file...'')))
    (pseq (total (extract_files E downloaded_file updateinfo_folder))
    (pseq (update_server n P updateinfo_folder server_folder)
    (pseq (total (log_update E server_folder url))
    (pseq (total (delete_folder updateinfo_folder))
          (total (print (nl @ ''Server binaries were successfully updated. Bye!'' @ nl)))))))"

text \<open>Lines 248 to 260: the download, then the installation of what it fetched.\<close>

definition download_and_install :: "nat \<Rightarrow> env \<Rightarrow> profile \<Rightarrow> path \<Rightarrow> string \<Rightarrow> path \<Rightarrow> unit pio" where
  "download_and_install n E P server_folder url updateinfo_folder =
     pseq (total (print (nl @ ''Downloading file...'')))
    (pbind (total (download_file E url updateinfo_folder)) (\<lambda>downloaded_file.
     install n E P server_folder url updateinfo_folder downloaded_file))"

text \<open>Lines 243 to 260: the update process for a chosen server folder.\<close>

definition update_process :: "nat \<Rightarrow> env \<Rightarrow> profile \<Rightarrow> path \<Rightarrow> unit pio" where
  "update_process n E P server_folder =
     pbind (total (fetch_exe_url E P)) (\<lambda>url.
     pbind (total (prepare_updateinfo_folder server_folder)) (\<lambda>updateinfo_folder.
     pseq (clear_folder n updateinfo_folder)
          (download_and_install n E P server_folder url updateinfo_folder)))"

text \<open>The body of the \<open>try\<close>.\<close>

definition try_body :: "nat \<Rightarrow> env \<Rightarrow> profile \<Rightarrow> unit pio" where
  "try_body n E P =
     pseq (total (print (nl @ ''---- MTA Server Updater by Fernando ----'')))
    (pseq (total (print (nl @ ''OS: '' @ os_system (the_host E) @ '' | 64-bit: ''
                         @ str_bool (is_64_bit (the_host E)) @ '' | ARM: ''
                         @ str_bool (startswith (machine (the_host E)) ''arm''))))
    (pbind (total (choose_server_folder E P)) (\<lambda>server_folder.
     pseq (total (print (nl @ ''Beginning the update process...'')))
          (update_process n E P (abspath E server_folder)))))"

text \<open>\<open>try: ... except Exception as e: print(traceback.format_exc())\<close>: an exception that
  derives from \<open>Exception\<close> is printed and the block ends normally; \<open>SystemExit\<close>
  passes through.\<close>

definition main_block :: "nat \<Rightarrow> env \<Rightarrow> profile \<Rightarrow> unit pio" where
  "main_block n E P w =
     (case try_body n E P w of
        None \<Rightarrow> None
      | Some (Inl e, w') \<Rightarrow>
          (if is_Exception e then Some (Inr (), w'\<lparr>stdout := stdout w' @ [Traceback e]\<rparr>)
           else Some (Inl e, w'))
      | Some (Inr u, w') \<Rightarrow> Some (Inr (), w'))"

text \<open>The whole script, from the imports to the end of the main block.\<close>

definition script :: "nat \<Rightarrow> env \<Rightarrow> unit pio" where
  "script n E = pbind (total (module_init (the_host E))) (\<lambda>P. main_block n E P)"

text \<open>The exit code of the process: the code of a \<open>SystemExit\<close>, 1 for any other exception
  that nothing caught, 0 when the script runs to its end.\<close>

fun exit_status :: "exn + unit \<Rightarrow> int" where
  "exit_status (Inr u) = 0"
| "exit_status (Inl (SystemExit code)) = code"
| "exit_status (Inl e) = 1"

definition run :: "nat \<Rightarrow> env \<Rightarrow> world \<Rightarrow> (int \<times> world) option" where
  "run n E w = map_option (\<lambda>(r, w'). (exit_status r, w')) (script n E w)"

section \<open>Well-formed file systems\<close>

text \<open>A name of a directory entry is not empty, is not \<open>.\<close> and holds no slash.  In a
  well-formed file system no path is listed twice, every name is proper and the parent of
  every entry is a directory.\<close>

definition proper_name :: "string \<Rightarrow> bool" where
  "proper_name n = (n \<noteq> [] \<and> n \<noteq> ''.'' \<and> CHR ''/'' \<notin> set n)"

definition well_formed :: "filesystem \<Rightarrow> bool" where
  "well_formed f =
     (distinct (map fst f) \<and>
      (\<forall>e\<in>set f. fst e \<noteq> [] \<and> (\<forall>n\<in>set (fst e). proper_name n) \<and> isdir f (butlast (fst e))))"

text \<open>Paths of which none lies at or below another; the paths strictly below one of a list;
  the directories at or below one of a list.\<close>

fun antichain :: "path list \<Rightarrow> bool" where
  "antichain [] = True"
| "antichain (s # ss) = ((\<forall>t\<in>set ss. \<not> prefix s t \<and> \<not> prefix t s) \<and> antichain ss)"

definition below :: "path list \<Rightarrow> path \<Rightarrow> bool" where
  "below stack p = (\<exists>s\<in>set stack. strict_prefix s p)"

definition dirs_below :: "filesystem \<Rightarrow> path list \<Rightarrow> path set" where
  "dirs_below f stack = {q. isdir f q \<and> (\<exists>s\<in>set stack. prefix s q)}"

section \<open>What a step may change\<close>

text \<open>\<open>effect A B w w'\<close>: from \<open>w\<close> to \<open>w'\<close> every path is as it was, or is a path of
  \<open>B\<close> that did not exist and is now a directory, or is a path of \<open>A\<close> that was no
  directory and now is a file.  Nothing is removed.  \<open>frame A w w'\<close> is weaker: outside
  \<open>A\<close> every path is as it was or is a new directory; inside \<open>A\<close> anything may
  have happened.\<close>

definition effect :: "(path \<Rightarrow> bool) \<Rightarrow> (path \<Rightarrow> bool) \<Rightarrow> world \<Rightarrow> world \<Rightarrow> bool" where
  "effect A B w w' =
     (\<forall>p. lookup (fs w') p = lookup (fs w) p
        \<or> (B p \<and> lookup (fs w) p = None \<and> lookup (fs w') p = Some D)
        \<or> (A p \<and> lookup (fs w) p \<noteq> Some D \<and> (\<exists>c. lookup (fs w') p = Some (F c))))"

definition frame :: "(path \<Rightarrow> bool) \<Rightarrow> world \<Rightarrow> world \<Rightarrow> bool" where
  "frame A w w' =
     (\<forall>p. \<not> A p \<longrightarrow>
        lookup (fs w') p = lookup (fs w) p \<or> (lookup (fs w) p = None \<and> lookup (fs w') p = Some D))"

section \<open>The staged libraries and their places in the server folder\<close>

text \<open>\<open>source_kept bin w0 w\<close>: at and below \<open>bin\<close> the world \<open>w\<close> is as \<open>w0\<close>
  was.  \<open>mirrors_apart bin dest f\<close>: for every library path of \<open>f\<close> below
  \<open>bin\<close>, the path it is copied to below \<open>dest\<close> neither lies inside \<open>bin\<close>
  nor is one of the directories \<open>bin\<close> lies in.\<close>

definition source_kept :: "path \<Rightarrow> world \<Rightarrow> world \<Rightarrow> bool" where
  "source_kept bin w0 w = (\<forall>p. prefix bin p \<longrightarrow> lookup (fs w) p = lookup (fs w0) p)"

definition mirrors_apart :: "path \<Rightarrow> path \<Rightarrow> filesystem \<Rightarrow> bool" where
  "mirrors_apart bin dest f =
     (\<forall>e\<in>set f. prefix bin (fst e) \<and> is_library (basename (fst e)) \<longrightarrow>
        \<not> prefix bin (dest @ drop (length bin) (fst e)) \<and>
        \<not> prefix (dest @ drop (length bin) (fst e)) bin)"

text \<open>\<open>library_mirror bin dest f p\<close>: \<open>p\<close> is the place below \<open>dest\<close> of a library file that
  \<open>f\<close> holds below \<open>bin\<close> (the same relative path), or the entry of the library's name
  inside that place (where \<open>shutil.copy2\<close> writes when the place is a directory).\<close>

definition library_mirror :: "path \<Rightarrow> path \<Rightarrow> filesystem \<Rightarrow> path \<Rightarrow> bool" where
  "library_mirror bin dest f p =
     (\<exists>e\<in>set f. strict_prefix bin (fst e) \<and> snd e \<noteq> D \<and> is_library (basename (fst e)) \<and>
        (p = dest @ drop (length bin) (fst e)
         \<or> p = dest @ drop (length bin) (fst e) @ [basename (fst e)]))"

text \<open>\<open>libraries_placed bin dest f g\<close>: for every library file that \<open>f\<close> holds below
  \<open>bin\<close>, \<open>g\<close> holds a file at its place below \<open>dest\<close>, in a directory.\<close>

definition libraries_placed :: "path \<Rightarrow> path \<Rightarrow> filesystem \<Rightarrow> filesystem \<Rightarrow> bool" where
  "libraries_placed bin dest f g =
     (\<forall>e\<in>set f. strict_prefix bin (fst e) \<and> snd e \<noteq> D \<and> is_library (basename (fst e)) \<longrightarrow>
        file_at g (dest @ drop (length bin) (fst e)) \<noteq> None
        \<and> isdir g (butlast (dest @ drop (length bin) (fst e))))"

text \<open>\<open>touched P sf p\<close>: \<open>p\<close> is a path that the update of the server folder \<open>sf\<close> may
  write or remove before it writes the log: a path at or below the staging folder, the
  installed executable, or a path named like a library.\<close>

definition touched :: "profile \<Rightarrow> path \<Rightarrow> path \<Rightarrow> bool" where
  "touched P sf p =
     (prefix (join sf ''updateinfo'') p \<or> p = join sf (EXEC_FILE_NAME P) \<or> is_library (basename p))"

text \<open>The format of a log line, in the words of the specification: a text matches a pattern
  such as \<open>YYYY-MM-DD HH:MM:SS\<close> when it has a digit wherever the pattern has one of the
  letters \<open>Y M D H S\<close> and the character of the pattern everywhere else.  A clock reading is
  valid when the year has four digits and the other fields are in their ranges.\<close>

definition is_digit :: "char \<Rightarrow> bool" where
  "is_digit c = (c \<in> set ''0123456789'')"

fun matches_format :: "string \<Rightarrow> string \<Rightarrow> bool" where
  "matches_format [] [] = True"
| "matches_format (p # ps) (c # cs) =
     ((if p \<in> set ''YMDHS'' then is_digit c else c = p) \<and> matches_format ps cs)"
| "matches_format [] (c # cs) = False"
| "matches_format (p # ps) [] = False"

definition valid_clock :: "datetime \<Rightarrow> bool" where
  "valid_clock d =
     (1000 \<le> year d \<and> year d \<le> 9999 \<and> 1 \<le> month d \<and> month d \<le> 12 \<and> 1 \<le> day d \<and> day d \<le> 31
      \<and> hour d < 24 \<and> minute d < 60 \<and> second d < 60)"

section \<open>Example values\<close>

definition empty_world :: world where
  "empty_world = \<lparr>fs = [], stdout = [], stdin = []\<rparr>"

text \<open>A hidden row, in the words of the specification: a row that carries an inline style
  attribute which says not to display it.\<close>

definition hides :: "string \<Rightarrow> bool" where
  "hides style = sublist ''display:none'' (filter (\<lambda>c. c \<noteq> CHR '' '') style)"

fun hidden :: "elem \<Rightarrow> bool" where
  "hidden e = (case get_attr e ''style'' of Some (AStr s) \<Rightarrow> hides s | _ \<Rightarrow> False)"

definition visible_file_row :: "elem \<Rightarrow> bool" where
  "visible_file_row e = (is_file_row e \<and> \<not> hidden e)"

definition linux64 :: profile where
  "linux64 = \<lparr>BUILD_STRING = ''Linux 64 bit server'', EXEC_FILE_NAME = ''mta-server64'',
              SERVER_BINARIES_LOCATION = ''x64''\<rparr>"

definition linux_host :: host where
  "linux_host = \<lparr>os_system = ''Linux'', machine = ''x86_64'', is_64_bit = True, missing_module = None\<rparr>"

definition file_row :: "(string \<times> attr_val) list \<Rightarrow> string \<Rightarrow> elem" where
  "file_row style href =
     Tag ''tr'' ((''class'', AList [''file'']) # style)
       [Tag ''td'' [] [Tag ''a'' [(''href'', AStr href)] [NavigableString href]]]"

definition listing :: "string \<Rightarrow> elem list \<Rightarrow> elem" where
  "listing label rows =
     Tag ''[document]'' []
       [Tag ''table'' [] [Tag ''tr'' [] [Tag ''td'' [] [NavigableString label]]],
        Tag ''table'' [] rows]"

definition page_other_label :: elem where
  "page_other_label = listing ''Windows 64 bit server'' [file_row [] ''a.exe'']"

definition page_two_rows :: elem where
  "page_two_rows = listing ''Linux 64 bit server''
     [file_row [(''style'', AStr ''display: none'')] ''old.tar.gz'', file_row [] ''new.tar.gz'']"

definition page_styled_row :: elem where
  "page_styled_row = listing ''Linux 64 bit server''
     [file_row [(''style'', AStr ''color: red'')] ''new.tar.gz'',
      file_row [(''style'', AStr ''display: none'')] ''old.tar.gz'']"

definition site :: "elem \<Rightarrow> env" where
  "site page =
     \<lparr>the_host = linux_host, argv = [''/srv/mta''], getcwd = ''/'',
      http = (\<lambda>url. Inr \<lparr>status_code = 200, chunks = [''<html>''], stream_error = None\<rparr>),
      html_parser = (\<lambda>text. page), which_7z = False,
      tar_members = (\<lambda>bytes. None), sevenzip_members = (\<lambda>bytes. None),
      now = \<lparr>year = 2024, month = 10, day = 10, hour = 9, minute = 5, second = 0\<rparr>\<rparr>"

definition server_world :: world where
  "server_world =
     \<lparr>fs = [([''srv''], D), ([''srv'', ''mta''], D),
             ([''srv'', ''mta'', ''mta-server64''], F ''old server''),
             ([''srv'', ''mta'', ''config.xml''], F ''settings''),
             ([''srv'', ''mta'', ''x64''], D),
             ([''srv'', ''mta'', ''x64'', ''a.so''], F ''old library'')],
      stdout = [], stdin = []\<rparr>"



definition build_members :: "(path \<times> node) list" where
  "build_members =
     [([''buildXYZ''], D),
      ([''buildXYZ'', ''a.so''], F ''new library''),
      ([''buildXYZ'', ''mta-server64''], F ''new server'')]"

definition tarball_site :: env where
  "tarball_site = (site page_two_rows)
     \<lparr>tar_members := (\<lambda>bytes. if bytes = ''TAR'' then Some build_members else None)\<rparr>"

definition staged_world :: world where
  "staged_world =
     \<lparr>fs = [([''srv''], D), ([''srv'', ''mta''], D),
             ([''srv'', ''mta'', ''updateinfo''], D),
             ([''srv'', ''mta'', ''updateinfo'', ''new.tar.gz''], F ''TAR'')],
      stdout = [], stdin = []\<rparr>"

definition apart_world :: world where
  "apart_world =
     \<lparr>fs = [([''tmp''], D), ([''tmp'', ''new.tar.gz''], F ''TAR''),
             ([''srv''], D), ([''srv'', ''mta''], D),
             ([''srv'', ''mta'', ''updateinfo''], D)],
      stdout = [], stdin = []\<rparr>"

definition cluttered_world :: world where
  "cluttered_world =
     \<lparr>fs = [([''srv''], D), ([''srv'', ''mta''], D),
             ([''srv'', ''mta'', ''config.xml''], F ''settings''),
             ([''srv'', ''mta'', ''updateinfo''], D),
             ([''srv'', ''mta'', ''updateinfo'', ''old.tar.gz''], F ''TAR''),
             ([''srv'', ''mta'', ''updateinfo'', ''server''], D),
             ([''srv'', ''mta'', ''updateinfo'', ''server'', ''x64''], D),
             ([''srv'', ''mta'', ''updateinfo'', ''server'', ''x64'', ''a.so''], F ''stale library''),
             ([''srv'', ''mta'', ''updateinfo'', ''server'', ''mta-server64''], F ''stale server'')],
      stdout = [], stdin = []\<rparr>"

definition ready_world :: world where
  "ready_world =
     \<lparr>fs = [([''srv''], D), ([''srv'', ''mta''], D),
             ([''srv'', ''mta'', ''mta-server64''], F ''old server''),
             ([''srv'', ''mta'', ''config.xml''], F ''settings''),
             ([''srv'', ''mta'', ''x64''], D),
             ([''srv'', ''mta'', ''x64'', ''a.so''], F ''old library''),
             ([''srv'', ''mta'', ''updateinfo''], D),
             ([''srv'', ''mta'', ''updateinfo'', ''server''], D),
             ([''srv'', ''mta'', ''updateinfo'', ''server'', ''mta-server64''], F ''new server''),
             ([''srv'', ''mta'', ''updateinfo'', ''server'', ''x64''], D),
             ([''srv'', ''mta'', ''updateinfo'', ''server'', ''x64'', ''a.so''], F ''new library'')],
      stdout = [], stdin = []\<rparr>"

definition installed_world :: world where
  "installed_world =
     \<lparr>fs = [([''srv''], D), ([''srv'', ''mta''], D),
             ([''srv'', ''mta'', ''config.xml''], F ''settings''),
             ([''srv'', ''mta'', ''x64''], D),
             ([''srv'', ''mta'', ''x64'', ''a.so''], F ''new library''),
             ([''srv'', ''mta'', ''updateinfo''], D),
             ([''srv'', ''mta'', ''updateinfo'', ''server''], D),
             ([''srv'', ''mta'', ''updateinfo'', ''server'', ''mta-server64''], F ''new server''),
             ([''srv'', ''mta'', ''updateinfo'', ''server'', ''x64''], D),
             ([''srv'', ''mta'', ''updateinfo'', ''server'', ''x64'', ''a.so''], F ''new library''),
             ([''srv'', ''mta'', ''mta-server64''], F ''new server'')],
      stdout = [], stdin = []\<rparr>"

definition windows64 :: profile where
  "windows64 = \<lparr>BUILD_STRING = ''Windows 64 bit server'', EXEC_FILE_NAME = ''MTA Server64.exe'',
                SERVER_BINARIES_LOCATION = ''x64''\<rparr>"

definition installer_page :: elem where
  "installer_page = listing ''Windows 64 bit server'' [file_row [] ''mtasa.exe'']"

definition installer_members :: "(path \<times> node) list" where
  "installer_members =
     [([''server''], D),
      ([''server'', ''MTA Server64.exe''], F ''new server''),
      ([''server'', ''x64''], D),
      ([''server'', ''x64'', ''core.dll''], F ''new library'')]"

text \<open>A site that serves the installer, on a host with or without \<open>7z\<close>.\<close>

definition installer_site :: "bool \<Rightarrow> env" where
  "installer_site has_7z = (site installer_page)
     \<lparr>http := (\<lambda>url. Inr \<lparr>status_code = 200, chunks = [''MZ''], stream_error = None\<rparr>),
      which_7z := has_7z,
      sevenzip_members := (\<lambda>bytes. if bytes = ''MZ'' then Some installer_members else None)\<rparr>"

definition logged_world :: world where
  "logged_world =
     \<lparr>fs = [([''srv''], D), ([''srv'', ''mta''], D),
             ([''srv'', ''mta'', ''MTA Server64.exe''], F ''old server''),
             ([''srv'', ''mta'', ''x64''], D),
             ([''srv'', ''mta'', ''x64'', ''core.dll''], F ''old library''),
             ([''srv'', ''mta'', ''updates.log''], F ''earlier'')],
      stdout = [], stdin = []\<rparr>"

text \<open>What the claims about the log read off an outcome: the result, the log, and whether
  the staging folder exists.\<close>

definition log_and_staging :: "path \<Rightarrow> (exn + unit) \<times> world \<Rightarrow> (exn + unit) \<times> string option \<times> bool" where
  "log_and_staging sf rw =
     (fst rw, file_at (fs (snd rw)) (join sf ''updates.log''),
      path_exists (fs (snd rw)) (join sf ''updateinfo''))"

section \<open>Relations that every step of a function keeps\<close>

text \<open>A relation between the world before and the world after is \<open>steady\<close> when it holds
  whenever the file system is the same and is transitive.  A step \<open>keeps\<close> it when the
  relation holds between the world it starts in and the world it ends in, whatever the
  outcome.  \<open>dir_kept p\<close>: if \<open>p\<close> was a directory, it still is.\<close>

definition steady :: "(world \<Rightarrow> world \<Rightarrow> bool) \<Rightarrow> bool" where
  "steady R = ((\<forall>w w'. fs w' = fs w \<longrightarrow> R w w') \<and> (\<forall>a b c. R a b \<longrightarrow> R b c \<longrightarrow> R a c))"

definition keeps :: "(world \<Rightarrow> world \<Rightarrow> bool) \<Rightarrow> 'a io \<Rightarrow> bool" where
  "keeps R m = (\<forall>w r w'. m w = (r, w') \<longrightarrow> R w w')"

definition keeps_p :: "(world \<Rightarrow> world \<Rightarrow> bool) \<Rightarrow> 'a pio \<Rightarrow> bool" where
  "keeps_p R m = (\<forall>w r w'. m w = Some (r, w') \<longrightarrow> R w w')"

definition dir_kept :: "path \<Rightarrow> world \<Rightarrow> world \<Rightarrow> bool" where
  "dir_kept p w w' = (isdir (fs w) p \<longrightarrow> isdir (fs w') p)"

chapter \<open>Properties\<close>

section \<open>Platform resolution\<close>

lemma host_key_defined:
  "cpu_arch h \<in> {''arm'', ''x86''} \<and> os_name h \<in> {''Windows'', ''Linux''} \<and> cpu_bits h \<in> {''64'', ''32''}"
  by (simp add: cpu_arch_def os_name_def cpu_bits_def)

text \<open>
  C5.  For every key with architecture arm or x86, system Windows or Linux and 64 or 32 bits,
  the lookup of lines 55 to 104 either gives a profile whose label, executable name and library
  location are all non-empty, or, for 32-bit ARM on Windows and for that key only, prints
  the message that the system is not supported and exits with code 1.  No key ends in a
  \<open>KeyError\<close>: the exit comes before \<open>EXEC_FILE_NAMES\<close>, which has no entry for that key,
  is read.
\<close>

theorem resolve_defined_or_not_supported:
  assumes "arch \<in> {''arm'', ''x86''}" and "os \<in> {''Windows'', ''Linux''}" and "bits \<in> {''64'', ''32''}"
  shows "if (arch, os, bits) = (''arm'', ''Windows'', ''32'')
         then resolve arch os bits w =
                (Inl (SystemExit 1),
                 w\<lparr>stdout := stdout w @ [Line ''This script is not compatible with your system (Windows 32 bit).'']\<rparr>)
         else (\<exists>P. resolve arch os bits w = (Inr P, w) \<and> BUILD_STRING P \<noteq> [] \<and>
                   EXEC_FILE_NAME P \<noteq> [] \<and> SERVER_BINARIES_LOCATION P \<noteq> [])"
  using assms
  by (auto simp: resolve_def dict_get3_def dict_get_def BUILD_STRINGS_def EXEC_FILE_NAMES_def
        SERVER_BINARIES_LOCATIONS_def bind_def lift_def seq_def print_def exit_def raise_def ret_def)

theorem resolve_defined_or_not_supported_witness:
  "(\<exists>P. resolve ''x86'' ''Linux'' ''64'' empty_world = (Inr P, empty_world) \<and> BUILD_STRING P \<noteq> [] \<and>
        EXEC_FILE_NAME P \<noteq> [] \<and> SERVER_BINARIES_LOCATION P \<noteq> [])
   \<and> resolve ''arm'' ''Windows'' ''32'' empty_world =
        (Inl (SystemExit 1),
         empty_world\<lparr>stdout := stdout empty_world @
            [Line ''This script is not compatible with your system (Windows 32 bit).'']\<rparr>)"
  using resolve_defined_or_not_supported [of "''x86''" "''Linux''" "''64''" empty_world]
        resolve_defined_or_not_supported [of "''arm''" "''Windows''" "''32''" empty_world]
  by simp

section \<open>fetch_exe_url on pages that lack the structure\<close>

lemma find_first_Some:
  "find_first P es = Some (e, rest) \<Longrightarrow> \<exists>pre. es = pre @ e # rest \<and> P e \<and> (\<forall>x\<in>set pre. \<not> P x)"
proof (induction es)
  case Nil
  then show ?case by simp
next
  case (Cons a es)
  show ?case
  proof (cases "P a")
    case True
    with Cons.prems show ?thesis by (intro exI [of _ "[]"]) simp
  next
    case False
    with Cons obtain pre where "es = pre @ e # rest" "P e" "\<forall>x\<in>set pre. \<not> P x" by auto
    with False show ?thesis by (intro exI [of _ "a # pre"]) simp
  qed
qed

lemma find_first_None: "find_first P es = None \<longleftrightarrow> (\<forall>x\<in>set es. \<not> P x)"
  by (induction es) auto

lemma hidden_has_style: "hidden e \<Longrightarrow> get_attr e ''style'' \<noteq> None"
  by (auto split: option.splits)




section \<open>The row fetch_exe_url selects\<close>

text \<open>
  C6.  The comment of line 135 asks for the first file row \<open>without display: none\<close>, which
  is what the claim states; the search of line 136 asks for a row without any \<open>style\<close>
  attribute.  On the page below the first file row that is not hidden is shown in red and links
  \<open>new.tar.gz\<close>, the second row is hidden.  The search skips the shown row, finds none, and
  the function raises \<open>AttributeError\<close> where the claim selects the link of the shown row.
\<close>

theorem find_href_skips_shown_styled_row:
  "map_option fst (find_first visible_file_row
      (descendants (Tag ''table'' [] [file_row [(''style'', AStr ''color: red'')] ''new.tar.gz'',
                                      file_row [(''style'', AStr ''display: none'')] ''old.tar.gz''])))
     = Some (file_row [(''style'', AStr ''color: red'')] ''new.tar.gz'')
   \<and> find_href page_styled_row ''Linux 64 bit server''
       = Inl (AttributeError ''NoneType object has no attribute find'')"
  by (simp add: page_styled_row_def listing_def file_row_def find_href_def soup_find_td_def
       is_label_cell_def method_of_def find_next_table_def table_find_tr_def is_shown_file_row_def
       is_file_row_def get_attr_def hides_def sublist_Cons_right visible_file_row_def)

text \<open>
  What the search does select: whenever a link is returned, it is the first link of the first
  row, in document order below the table that follows the label cell, that has class
  \<open>file\<close> and no \<open>style\<close> attribute at all.  A row with a style attribute is never
  selected, so a hidden row never is.
\<close>

lemma find_href_first_unstyled_row:
  assumes "find_href soup label = Inr url"
  shows "\<exists>td table before row after a href.
           soup_find_td soup label = Some td \<and> find_next_table td = Some table \<and>
           descendants table = before @ row # after \<and>
           (\<forall>r\<in>set before. \<not> (is_file_row r \<and> get_attr r ''style'' = None)) \<and>
           is_file_row row \<and> get_attr row ''style'' = None \<and> \<not> hidden row \<and>
           tr_find_a row = Some a \<and> get_attr a ''href'' = Some href \<and>
           url = nightly_url @ str_attr href"
proof -
  from assms obtain td where td: "soup_find_td soup label = Some td"
    by (cases "soup_find_td soup label") (auto simp: find_href_def method_of_def)
  from assms td obtain table where table: "find_next_table td = Some table"
    by (cases "find_next_table td") (auto simp: find_href_def method_of_def)
  from assms td table obtain row where row: "table_find_tr table = Some row"
    by (cases "table_find_tr table") (auto simp: find_href_def method_of_def)
  from assms td table row obtain a where a: "tr_find_a row = Some a"
    by (cases "tr_find_a row") (auto simp: find_href_def method_of_def subscript_def)
  from assms td table row a obtain href where href: "get_attr a ''href'' = Some href"
    and url: "url = nightly_url @ str_attr href"
    by (cases "get_attr a ''href''") (auto simp: find_href_def method_of_def subscript_def)
  from row obtain after where "find_first is_shown_file_row (descendants table) = Some (row, after)"
    by (auto simp: table_find_tr_def)
  from find_first_Some [OF this] obtain before where
    split: "descendants table = before @ row # after" and shown: "is_shown_file_row row"
    and first: "\<forall>x\<in>set before. \<not> is_shown_file_row x" by blast
  from shown have "\<not> hidden row" using hidden_has_style by (auto simp: is_shown_file_row_def)
  with td table split shown first a href url show ?thesis
    unfolding is_shown_file_row_def by blast
qed

lemma find_href_first_unstyled_row_example:
  "find_href page_two_rows ''Linux 64 bit server'' = Inr ''https://nightly.multitheftauto.com/new.tar.gz''
   \<and> (\<exists>td table before row after a href.
           soup_find_td page_two_rows ''Linux 64 bit server'' = Some td \<and> find_next_table td = Some table \<and>
           descendants table = before @ row # after \<and>
           (\<forall>r\<in>set before. \<not> (is_file_row r \<and> get_attr r ''style'' = None)) \<and>
           is_file_row row \<and> get_attr row ''style'' = None \<and> \<not> hidden row \<and>
           tr_find_a row = Some a \<and> get_attr a ''href'' = Some href \<and>
           ''https://nightly.multitheftauto.com/new.tar.gz'' = nightly_url @ str_attr href)"
proof -
  have h: "find_href page_two_rows ''Linux 64 bit server'' = Inr ''https://nightly.multitheftauto.com/new.tar.gz''"
    by (simp add: page_two_rows_def listing_def file_row_def find_href_def soup_find_td_def
       is_label_cell_def method_of_def find_next_table_def table_find_tr_def is_shown_file_row_def
       is_file_row_def get_attr_def tr_find_a_def subscript_def nightly_url_def)
  show ?thesis using find_href_first_unstyled_row [OF h] h by simp
qed

section \<open>The top-level handler\<close>

lemma main_block_catches:
  assumes "try_body n E P w = Some (Inl e, w')" and "is_Exception e"
  shows "main_block n E P w = Some (Inr (), w'\<lparr>stdout := stdout w' @ [Traceback e]\<rparr>)"
  using assms by (simp add: main_block_def)

lemma caught_exception_exit_status:
  assumes "module_init (the_host E) w = (Inr P, w0)" and "try_body n E P w0 = Some (Inl e, w')"
    and "is_Exception e"
  shows "run n E w = Some (0, w'\<lparr>stdout := stdout w' @ [Traceback e]\<rparr>)"
  using assms by (simp add: run_def script_def pbind_def total_def main_block_def)

text \<open>
  C1.  The claim asks for a non-zero exit code after an unexpected failure.  The handler of
  line 262 prints the traceback and lets the script run to its end: the process exits with
  code 0.  Here the listing page has no cell for the label, \<open>td.find_next\<close> raises
  \<open>AttributeError\<close>, the traceback is the last thing printed, and the exit code is 0.
  Every failure the script recognises itself ends in \<open>exit(1)\<close>.
\<close>

theorem unexpected_failure_exit_code:
  "map_option fst (run 0 (site page_other_label) server_world) = Some 0 \<and>
   map_option (last \<circ> stdout \<circ> snd) (run 0 (site page_other_label) server_world)
     = Some (Traceback (AttributeError ''NoneType object has no attribute find_next''))"
  by (simp add: run_def script_def module_init_def site_def linux_host_def resolve_def
       cpu_arch_def os_name_def cpu_bits_def startswith_def
       dict_get3_def dict_get_def BUILD_STRINGS_def EXEC_FILE_NAMES_def
       SERVER_BINARIES_LOCATIONS_def bind_def lift_def seq_def print_def exit_def raise_def ret_def
       pbind_def pseq_def total_def main_block_def try_body_def choose_server_folder_def first_item_def
       get_fs_def abspath_def path_of_def server_world_def path_exists_def lookup_def
       update_process_def fetch_exe_url_def requests_get_def find_href_def soup_find_td_def
       is_label_cell_def method_of_def page_other_label_def listing_def file_row_def nightly_url_def)

section \<open>download_file\<close>


lemma open_wb_result:
  "open_wb p w = (Inr u, w') \<Longrightarrow> lookup (fs w') p = Some (F [])"
  by (auto simp: open_wb_def put_def lookup_def update_conv' parent_error_def
      split: option.splits node.splits if_splits)




section \<open>clear_folder and delete_folder\<close>

text \<open>
  C10.  On a path that does not exist or is not a directory, clear_folder and delete_folder
  return without an exception and leave the world as it was.
\<close>

theorem folder_calls_skip_non_directories:
  assumes "\<not> isdir (fs w) folder"
  shows "clear_folder n folder w = Some (Inr (), w) \<and> delete_folder folder w = (Inr (), w)"
  using assms by (simp add: clear_folder_def delete_folder_def when_fs_def)

theorem folder_calls_skip_non_directories_witness:
  "clear_folder 0 [''srv'', ''mta'', ''updateinfo''] server_world = Some (Inr (), server_world)
   \<and> delete_folder [''srv'', ''mta'', ''updateinfo''] server_world = (Inr (), server_world)
   \<and> clear_folder 0 [''srv'', ''mta'', ''config.xml''] server_world = Some (Inr (), server_world)
   \<and> delete_folder [''srv'', ''mta'', ''config.xml''] server_world = (Inr (), server_world)"
proof -
  have 1: "\<not> isdir (fs server_world) [''srv'', ''mta'', ''updateinfo'']"
    by (simp add: isdir_def lookup_def server_world_def)
  have 2: "\<not> isdir (fs server_world) [''srv'', ''mta'', ''config.xml'']"
    by (simp add: isdir_def lookup_def server_world_def)
  show ?thesis
    using folder_calls_skip_non_directories [OF 1, of 0] folder_calls_skip_non_directories [OF 2, of 0]
    by simp
qed

section \<open>extract_files on a tarball\<close>

lemmas eval_defs =
  extract_files_def tar_extractall_def basename_def endswith_def Let_def bind_def seq_def ret_def
  raise_def lift_def read_file_def lookup_def extract_member_def when_fs_def dirname_def
  path_exists_def isdir_def os_mkdir_def parent_error_def put_def open_wb_def file_write_def
  os_listdir_def names_in_def first_item_def join_def path_of_def os_rename_def move_entry_def
  suffix_to_prefix

text \<open>
  C4.  The claim asks that a tarball with the single top-level directory \<open>buildXYZ\<close>
  ends as \<open>server\<close> with the same files, and that \<open>buildXYZ\<close> is gone.
  download_file stores the archive in the staging folder, and extract_files renames
  \<open>os.listdir(dest_folder)[0]\<close>, which need not be the directory the archive held.
  Here the staging folder holds the archive, listed first: extraction succeeds, the archive
  file itself is renamed to \<open>server\<close>, and \<open>buildXYZ\<close> stays.
\<close>

theorem extract_files_renames_the_archive:
  "fst (extract_files tarball_site [''srv'', ''mta'', ''updateinfo'', ''new.tar.gz'']
          [''srv'', ''mta'', ''updateinfo''] staged_world) = Inr ()
   \<and> fs (snd (extract_files tarball_site [''srv'', ''mta'', ''updateinfo'', ''new.tar.gz'']
          [''srv'', ''mta'', ''updateinfo''] staged_world))
     = [([''srv''], D), ([''srv'', ''mta''], D),
        ([''srv'', ''mta'', ''updateinfo''], D),
        ([''srv'', ''mta'', ''updateinfo'', ''server''], F ''TAR''),
        ([''srv'', ''mta'', ''updateinfo'', ''buildXYZ''], D),
        ([''srv'', ''mta'', ''updateinfo'', ''buildXYZ'', ''a.so''], F ''new library''),
        ([''srv'', ''mta'', ''updateinfo'', ''buildXYZ'', ''mta-server64''], F ''new server'')]"
  by (simp add: eval_defs tarball_site_def site_def staged_world_def build_members_def)

text \<open>With the archive stored outside an empty destination the same call does give the
  directory \<open>server\<close> with both files, and no \<open>buildXYZ\<close>.\<close>

lemma extract_files_apart:
  "fst (extract_files tarball_site [''tmp'', ''new.tar.gz'']
          [''srv'', ''mta'', ''updateinfo''] apart_world) = Inr ()
   \<and> fs (snd (extract_files tarball_site [''tmp'', ''new.tar.gz'']
          [''srv'', ''mta'', ''updateinfo''] apart_world))
     = [([''tmp''], D), ([''tmp'', ''new.tar.gz''], F ''TAR''),
        ([''srv''], D), ([''srv'', ''mta''], D),
        ([''srv'', ''mta'', ''updateinfo''], D),
        ([''srv'', ''mta'', ''updateinfo'', ''server''], D),
        ([''srv'', ''mta'', ''updateinfo'', ''server'', ''a.so''], F ''new library''),
        ([''srv'', ''mta'', ''updateinfo'', ''server'', ''mta-server64''], F ''new server'')]"
  by (simp add: eval_defs tarball_site_def site_def apart_world_def build_members_def)

section \<open>Facts about the file system\<close>

lemma split_no_sep: "c \<notin> set s \<Longrightarrow> split c s = [s]"
  by (induction s) auto

lemma path_of_proper: "proper_name n \<Longrightarrow> path_of n = [n]"
  by (simp add: path_of_def proper_name_def split_no_sep)

lemma join_proper: "proper_name n \<Longrightarrow> join p n = p @ [n]"
  by (simp add: join_def path_of_proper)

lemma wf_lookup: "well_formed f \<Longrightarrow> (p, v) \<in> set f \<Longrightarrow> lookup f p = Some v"
  by (auto simp: well_formed_def lookup_def)

lemma lookup_in: "lookup f p = Some v \<Longrightarrow> p \<noteq> [] \<Longrightarrow> (p, v) \<in> set f"
  by (auto simp: lookup_def dest: map_of_SomeD)

lemma names_in_iff: "n \<in> set (names_in f r) \<longleftrightarrow> (\<exists>v. (r @ [n], v) \<in> set f)"
proof
  assume "n \<in> set (names_in f r)"
  then obtain q v where "(q, v) \<in> set f" "q \<noteq> []" "butlast q = r" "last q = n"
    by (auto simp: names_in_def)
  then have "q = r @ [n]" using append_butlast_last_id by metis
  with \<open>(q, v) \<in> set f\<close> show "\<exists>v. (r @ [n], v) \<in> set f" by blast
next
  assume "\<exists>v. (r @ [n], v) \<in> set f"
  then obtain v where "(r @ [n], v) \<in> set f" ..
  then show "n \<in> set (names_in f r)"
    by (force simp: names_in_def image_iff)
qed

lemma names_in_distinct: "distinct (map fst f) \<Longrightarrow> distinct (names_in f r)"
proof -
  assume d: "distinct (map fst f)"
  let ?g = "filter (\<lambda>(q, n). q \<noteq> [] \<and> butlast q = r) f"
  have "distinct (map fst ?g)" using d by (rule distinct_map_filter)
  moreover have "inj_on last (set (map fst ?g))"
  proof (rule inj_onI)
    fix x y assume "x \<in> set (map fst ?g)" "y \<in> set (map fst ?g)" "last x = last y"
    then have "x \<noteq> []" "butlast x = r" "y \<noteq> []" "butlast y = r" by auto
    with \<open>last x = last y\<close> show "x = y" by (metis append_butlast_last_id)
  qed
  ultimately have "distinct (map last (map fst ?g))" by (subst distinct_map) blast
  moreover have "names_in f r = map last (map fst ?g)" by (simp add: names_in_def)
  ultimately show ?thesis by simp
qed

lemma names_in_proper: "well_formed f \<Longrightarrow> n \<in> set (names_in f r) \<Longrightarrow> proper_name n"
  by (fastforce simp: names_in_iff well_formed_def)

lemma ancestors_are_dirs:
  "well_formed f \<Longrightarrow> path_exists f p \<Longrightarrow> strict_prefix q p \<Longrightarrow> isdir f q"
proof (induction p arbitrary: q rule: rev_induct)
  case Nil
  then show ?case by simp
next
  case (snoc x p)
  from snoc.prems obtain v where "(p @ [x], v) \<in> set f"
    by (auto simp: path_exists_def dest: lookup_in)
  with snoc.prems(1) have par: "isdir f p" by (fastforce simp: well_formed_def)
  from snoc.prems(3) have "prefix q p" by (auto simp: strict_prefix_def)
  show ?case
  proof (cases "q = p")
    case True
    with par show ?thesis by simp
  next
    case False
    with \<open>prefix q p\<close> have "strict_prefix q p" by (simp add: strict_prefix_def)
    moreover from par have "path_exists f p" by (simp add: isdir_def path_exists_def)
    ultimately show ?thesis using snoc.IH snoc.prems(1) by blast
  qed
qed

lemma map_of_filter_distinct:
  "distinct (map fst f) \<Longrightarrow>
   map_of (filter P f) p = (case map_of f p of None \<Rightarrow> None | Some v \<Rightarrow> if P (p, v) then Some v else None)"
proof (induction f)
  case Nil
  then show ?case by simp
next
  case (Cons a f)
  obtain k v where a: "a = (k, v)" by (cases a)
  from Cons have IH: "map_of (filter P f) p = (case map_of f p of None \<Rightarrow> None | Some v \<Rightarrow> if P (p, v) then Some v else None)"
    by simp
  from Cons.prems a have "map_of f k = None" by (simp add: map_of_eq_None_iff)
  with IH a show ?case by (auto split: option.splits)
qed

lemma lookup_filter:
  "distinct (map fst f) \<Longrightarrow>
   lookup (filter P f) p =
     (if p = [] then Some D
      else case lookup f p of None \<Rightarrow> None | Some v \<Rightarrow> if P (p, v) then Some v else None)"
  by (simp add: lookup_def map_of_filter_distinct)

lemma isdir_filter:
  assumes "well_formed f" and "\<forall>e\<in>set f. snd e = D \<longrightarrow> P e"
  shows "isdir (filter P f) q = isdir f q"
proof (cases "q = []")
  case True
  then show ?thesis by (simp add: isdir_def lookup_def)
next
  case False
  from assms(1) have d: "distinct (map fst f)" by (simp add: well_formed_def)
  show ?thesis
  proof (cases "lookup f q")
    case None
    with False d show ?thesis by (simp add: isdir_def lookup_filter)
  next
    case (Some v)
    with False have "(q, v) \<in> set f" using lookup_in by blast
    with assms(2) have "v = D \<longrightarrow> P (q, v)" by fastforce
    with Some False d show ?thesis by (auto simp: isdir_def lookup_filter)
  qed
qed

lemma well_formed_filter:
  assumes "well_formed f" and "\<forall>e\<in>set f. snd e = D \<longrightarrow> P e"
  shows "well_formed (filter P f)"
proof -
  from assms(1) have d: "distinct (map fst f)" by (simp add: well_formed_def)
  have "distinct (map fst (filter P f))" using d by (rule distinct_map_filter)
  moreover have "\<forall>e\<in>set (filter P f). fst e \<noteq> [] \<and> (\<forall>n\<in>set (fst e). proper_name n)
                    \<and> isdir (filter P f) (butlast (fst e))"
    using assms(1) isdir_filter [OF assms] by (auto simp: well_formed_def)
  ultimately show ?thesis by (simp add: well_formed_def)
qed

lemma for_each_remove:
  assumes "\<forall>n\<in>set ns. \<exists>c. lookup (fs w) (join r n) = Some (F c)"
    and "distinct (map (join r) ns)" and "distinct (map fst (fs w))"
  shows "for_each ns (\<lambda>file. os_remove (join r file)) w =
           (Inr (), w\<lparr>fs := filter (\<lambda>e. fst e \<notin> join r ` set ns) (fs w)\<rparr>)"
  using assms
proof (induction ns arbitrary: w)
  case Nil
  then show ?case by (simp add: ret_def)
next
  case (Cons n ns)
  let ?w1 = "w\<lparr>fs := AList.delete (join r n) (fs w)\<rparr>"
  from Cons.prems(1) obtain c where c: "lookup (fs w) (join r n) = Some (F c)" by auto
  then have step: "os_remove (join r n) w = (Inr (), ?w1)" by (simp add: os_remove_def)
  have del: "AList.delete (join r n) (fs w) = filter (\<lambda>e. fst e \<noteq> join r n) (fs w)"
    by (auto simp: AList.delete_eq intro: filter_cong)
  have d1: "distinct (map fst (fs ?w1))" using Cons.prems(3) by (simp add: distinct_delete)
  have "\<forall>m\<in>set ns. \<exists>c. lookup (fs ?w1) (join r m) = Some (F c)"
  proof
    fix m assume m: "m \<in> set ns"
    with Cons.prems(1) obtain c' where c': "lookup (fs w) (join r m) = Some (F c')" by auto
    from m Cons.prems(2) have "join r m \<noteq> join r n" by (metis distinct.simps(2) image_eqI list.simps(9) set_map)
    moreover from c' have "join r m \<noteq> []" by (auto simp: lookup_def split: if_splits)
    ultimately have "lookup (fs ?w1) (join r m) = Some (F c')"
      using c' Cons.prems(3) by (simp add: del lookup_filter)
    then show "\<exists>c. lookup (fs ?w1) (join r m) = Some (F c)" by blast
  qed
  moreover from Cons.prems(2) have "distinct (map (join r) ns)" by simp
  ultimately have "for_each ns (\<lambda>file. os_remove (join r file)) ?w1 =
           (Inr (), ?w1\<lparr>fs := filter (\<lambda>e. fst e \<notin> join r ` set ns) (fs ?w1)\<rparr>)"
    using Cons.IH d1 by blast
  moreover have "filter (\<lambda>e. fst e \<notin> join r ` set ns) (fs ?w1)
                 = filter (\<lambda>e. fst e \<notin> join r ` set (n # ns)) (fs w)"
    by (auto simp: del intro: filter_cong)
  ultimately show ?case using step by (simp add: seq_def bind_def)
qed

section \<open>The walk of clear_folder\<close>

lemma antichain_append:
  "antichain (xs @ ys) \<longleftrightarrow>
     antichain xs \<and> antichain ys \<and> (\<forall>x\<in>set xs. \<forall>y\<in>set ys. \<not> prefix x y \<and> \<not> prefix y x)"
  by (induction xs) auto

lemma antichain_children: "distinct ds \<Longrightarrow> antichain (map (\<lambda>d. r @ [d]) ds)"
  by (induction ds) auto

lemma antichain_step:
  assumes "antichain (r # rest)" and "distinct ds"
  shows "antichain (map (\<lambda>d. r @ [d]) ds @ rest)"
proof -
  have "\<not> prefix (r @ [d]) y \<and> \<not> prefix y (r @ [d])" if "y \<in> set rest" for d y
  proof -
    from assms(1) that have a: "\<not> prefix r y" "\<not> prefix y r" by auto
    from a(1) have "\<not> prefix (r @ [d]) y" using append_prefixD by blast
    moreover have "\<not> prefix y (r @ [d])"
    proof
      assume "prefix y (r @ [d])"
      then have "y = r @ [d] \<or> prefix y r" by (simp add: prefix_snoc)
      with a show False by auto
    qed
    ultimately show ?thesis by simp
  qed
  with assms show ?thesis by (auto simp: antichain_append antichain_children)
qed

lemma finite_dirs_below: "finite (dirs_below f stack)"
proof -
  have "dirs_below f stack \<subseteq> insert [] (fst ` set f)"
    by (auto simp: dirs_below_def isdir_def dest!: lookup_in intro: rev_image_eqI)
  then show ?thesis by (rule finite_subset) simp
qed

lemma card_dirs_below: "card (dirs_below f stack) \<le> length f + 1"
proof -
  have "dirs_below f stack \<subseteq> insert [] (fst ` set f)"
    by (auto simp: dirs_below_def isdir_def dest!: lookup_in intro: rev_image_eqI)
  then have "card (dirs_below f stack) \<le> card (insert [] (fst ` set f))"
    by (intro card_mono) simp_all
  also have "\<dots> \<le> card (fst ` set f) + 1" by (simp add: card_insert_if)
  also have "card (fst ` set f) \<le> length f"
    by (metis card_length length_map set_map)
  finally show ?thesis by simp
qed

lemma walk_clear:
  assumes "well_formed (fs w)" and "antichain stack" and "\<forall>s\<in>set stack. isdir (fs w) s"
    and "card (dirs_below (fs w) stack) < n"
  shows "walk_for n stack (\<lambda>root dirs files. for_each files (\<lambda>file. os_remove (join root file))) w
         = Some (Inr (), w\<lparr>fs := filter (\<lambda>e. \<not> (below stack (fst e) \<and> snd e \<noteq> D)) (fs w)\<rparr>)"
  using assms
proof (induction n arbitrary: stack w)
  case 0
  then show ?case by simp
next
  case (Suc n)
  let ?body = "\<lambda>root dirs files. for_each files (\<lambda>file. os_remove (join root file))"
  let ?f = "fs w"
  show ?case
  proof (cases stack)
    case Nil
    then show ?thesis by (simp add: below_def)
  next
    case (Cons r rest)
    let ?names = "names_in ?f r"
    let ?dirs = "filter (\<lambda>d. isdir ?f (r @ [d])) ?names"
    let ?nondirs = "filter (\<lambda>d. \<not> isdir ?f (r @ [d])) ?names"
    let ?f1 = "filter (\<lambda>e. fst e \<notin> join r ` set ?nondirs) ?f"
    let ?w1 = "w\<lparr>fs := ?f1\<rparr>"
    let ?stack' = "map (\<lambda>d. r @ [d]) ?dirs @ rest"
    from Suc.prems(1) have dist: "distinct (map fst ?f)" by (simp add: well_formed_def)
    from Suc.prems(3) Cons have rdir: "isdir ?f r" by simp
    have proper: "proper_name m" if "m \<in> set ?names" for m
      using that Suc.prems(1) names_in_proper by blast
    have joinr: "join r m = r @ [m]" if "m \<in> set ?names" for m
      using proper [OF that] by (rule join_proper)
    have dnames: "distinct ?names" using dist by (rule names_in_distinct)
    \<comment> \<open>the body removes the files of this directory\<close>
    have files: "\<forall>m\<in>set ?nondirs. \<exists>c. lookup ?f (join r m) = Some (F c)"
    proof
      fix m assume m: "m \<in> set ?nondirs"
      then have mn: "m \<in> set ?names" and nd: "\<not> isdir ?f (r @ [m])" by auto
      from mn obtain v where "(r @ [m], v) \<in> set ?f" by (auto simp: names_in_iff)
      with Suc.prems(1) have "lookup ?f (r @ [m]) = Some v" by (rule wf_lookup)
      with nd obtain c where "lookup ?f (r @ [m]) = Some (F c)"
        by (cases v) (auto simp: isdir_def)
      with joinr [OF mn] show "\<exists>c. lookup ?f (join r m) = Some (F c)" by auto
    qed
    have mj: "map (join r) ?nondirs = map (\<lambda>d. r @ [d]) ?nondirs"
      using joinr by (intro map_cong) auto
    have dj: "distinct (map (join r) ?nondirs)"
      unfolding mj using dnames by (simp add: distinct_map inj_on_def)
    have body: "?body r ?dirs ?nondirs w = (Inr (), ?w1)"
      using for_each_remove [OF files dj dist] by simp
    \<comment> \<open>only files were removed\<close>
    have keep: "\<forall>e\<in>set ?f. snd e = D \<longrightarrow> fst e \<notin> join r ` set ?nondirs"
    proof (intro ballI impI notI)
      fix e assume e: "e \<in> set ?f" "snd e = D" "fst e \<in> join r ` set ?nondirs"
      then obtain m where m: "m \<in> set ?nondirs" "fst e = join r m" by auto
      then have "fst e = r @ [m]" using joinr by auto
      moreover from e have "(fst e, D) \<in> set ?f" by (metis prod.collapse)
      ultimately have "lookup ?f (r @ [m]) = Some D" using Suc.prems(1) wf_lookup by metis
      with m show False by (simp add: isdir_def)
    qed
    have wf1: "well_formed (fs ?w1)" using well_formed_filter [OF Suc.prems(1) keep] by simp
    have isd: "isdir (fs ?w1) q = isdir ?f q" for q
      using isdir_filter [OF Suc.prems(1) keep] by simp
    have anti: "antichain ?stack'"
      using Suc.prems(2) Cons dnames by (intro antichain_step) auto
    have dirs1: "\<forall>s\<in>set ?stack'. isdir (fs ?w1) s"
    proof
      fix s assume "s \<in> set ?stack'"
      with Suc.prems(3) Cons have "isdir ?f s" by auto
      then show "isdir (fs ?w1) s" by (simp only: isd)
    qed
    \<comment> \<open>fewer directories are left to visit\<close>
    have same: "dirs_below (fs ?w1) ?stack' = dirs_below ?f ?stack'"
      unfolding dirs_below_def by (simp only: isd)
    have sub: "dirs_below ?f ?stack' \<subseteq> dirs_below ?f (r # rest) - {r}"
    proof
      fix q assume q: "q \<in> dirs_below ?f ?stack'"
      then obtain s where s: "s \<in> set ?stack'" "prefix s q" "isdir ?f q"
        by (auto simp: dirs_below_def)
      have "q \<noteq> r"
      proof
        assume "q = r"
        with s(1,2) Suc.prems(2) Cons show False by auto
      qed
      moreover from s have "\<exists>t\<in>set (r # rest). prefix t q"
        using append_prefixD by fastforce
      ultimately show "q \<in> dirs_below ?f (r # rest) - {r}"
        using s(3) by (simp add: dirs_below_def)
    qed
    have "r \<in> dirs_below ?f (r # rest)" using rdir by (simp add: dirs_below_def)
    with sub have "dirs_below ?f ?stack' \<subset> dirs_below ?f (r # rest)" by blast
    then have "card (dirs_below ?f ?stack') < card (dirs_below ?f (r # rest))"
      using finite_dirs_below by (intro psubset_card_mono)
    with Suc.prems(4) Cons same have fuel: "card (dirs_below (fs ?w1) ?stack') < n" by simp
    from Suc.IH [OF wf1 anti dirs1 fuel]
    have rest: "walk_for n ?stack' ?body ?w1 =
        Some (Inr (), ?w1\<lparr>fs := filter (\<lambda>e. \<not> (below ?stack' (fst e) \<and> snd e \<noteq> D)) (fs ?w1)\<rparr>)" .
    \<comment> \<open>what is left is the file system without the files below the stack\<close>
    have eq: "filter (\<lambda>e. \<not> (below ?stack' (fst e) \<and> snd e \<noteq> D)) ?f1
              = filter (\<lambda>e. \<not> (below (r # rest) (fst e) \<and> snd e \<noteq> D)) ?f"
    proof -
      have pw: "(fst e \<notin> join r ` set ?nondirs \<and> \<not> (below ?stack' (fst e) \<and> snd e \<noteq> D))
            \<longleftrightarrow> \<not> (below (r # rest) (fst e) \<and> snd e \<noteq> D)" if e: "e \<in> set ?f" for e
      proof (cases "snd e = D")
        case True
        with keep e show ?thesis by auto
      next
        case False
        obtain p v where pv: "e = (p, v)" by (cases e)
        with False e have v: "v \<noteq> D" "(p, v) \<in> set ?f" by auto
        then have lk: "lookup ?f p = Some v" using Suc.prems(1) wf_lookup by blast
        show ?thesis
        proof
          assume a: "fst e \<notin> join r ` set ?nondirs \<and> \<not> (below ?stack' (fst e) \<and> snd e \<noteq> D)"
          with pv v have nb: "\<not> below ?stack' p" and nj: "p \<notin> join r ` set ?nondirs" by auto
          have "\<not> below (r # rest) p"
          proof
            assume "below (r # rest) p"
            with nb have "strict_prefix r p" by (auto simp: below_def)
            then obtain zs where "p = r @ zs" "zs \<noteq> []"
              by (auto simp: strict_prefix_def prefix_def)
            then obtain x xs where p: "p = r @ x # xs"
              by (cases zs) auto
            show False
            proof (cases xs)
              case Nil
              with p v have "x \<in> set ?names" by (auto simp: names_in_iff)
              moreover have "\<not> isdir ?f (r @ [x])" using lk p Nil v by (simp add: isdir_def)
              ultimately have "x \<in> set ?nondirs" by simp
              then have "join r x \<in> join r ` set ?nondirs" by blast
              with joinr \<open>x \<in> set ?names\<close> p Nil nj show False by simp
            next
              case (Cons y ys)
              with p have sp: "strict_prefix (r @ [x]) p" by (simp add: strict_prefix_def)
              from lk have "path_exists ?f p" by (simp add: path_exists_def)
              with Suc.prems(1) sp have d: "isdir ?f (r @ [x])" using ancestors_are_dirs by blast
              then have "(r @ [x], D) \<in> set ?f" by (auto simp: isdir_def dest: lookup_in)
              then have "x \<in> set ?names" by (auto simp: names_in_iff)
              with d have "r @ [x] \<in> set ?stack'" by auto
              with sp have "below ?stack' p" unfolding below_def by blast
              with nb show False by simp
            qed
          qed
          with pv show "\<not> (below (r # rest) (fst e) \<and> snd e \<noteq> D)" by simp
        next
          assume "\<not> (below (r # rest) (fst e) \<and> snd e \<noteq> D)"
          with pv v have nb: "\<not> below (r # rest) p" by simp
          then have nr: "\<not> strict_prefix r p" and nrest: "\<forall>s\<in>set rest. \<not> strict_prefix s p"
            by (auto simp: below_def)
          have "p \<notin> join r ` set ?nondirs"
          proof
            assume "p \<in> join r ` set ?nondirs"
            then obtain m where "m \<in> set ?nondirs" "p = join r m" by auto
            then have "p = r @ [m]" using joinr by auto
            with nr show False by (simp add: strict_prefix_def)
          qed
          moreover have "\<not> below ?stack' p"
          proof
            assume "below ?stack' p"
            then obtain s where s: "s \<in> set ?stack'" "strict_prefix s p" by (auto simp: below_def)
            with nrest obtain d where "s = r @ [d]" by auto
            with s(2) have "strict_prefix r p"
              by (auto simp: strict_prefix_def prefix_def)
            with nr show False by simp
          qed
          ultimately show "fst e \<notin> join r ` set ?nondirs \<and> \<not> (below ?stack' (fst e) \<and> snd e \<noteq> D)"
            using pv by simp
        qed
      qed
      have "filter (\<lambda>e. \<not> (below ?stack' (fst e) \<and> snd e \<noteq> D)) ?f1
            = filter (\<lambda>e. fst e \<notin> join r ` set ?nondirs \<and> \<not> (below ?stack' (fst e) \<and> snd e \<noteq> D)) ?f"
        by (simp only: filter_filter)
      also have "\<dots> = filter (\<lambda>e. \<not> (below (r # rest) (fst e) \<and> snd e \<noteq> D)) ?f"
        by (rule filter_cong [OF refl]) (rule pw)
      finally show ?thesis .
    qed
    have unfold: "walk_for (Suc n) (r # rest) ?body w =
        (case ?body r ?dirs ?nondirs w of
           (Inl e, w') \<Rightarrow> Some (Inl e, w')
         | (Inr u, w') \<Rightarrow> walk_for n ?stack' ?body w')"
      using rdir by (simp only: walk_for.simps Let_def if_False not_not not_True_eq_False simp_thms)
    have "walk_for (Suc n) (r # rest) ?body w = walk_for n ?stack' ?body ?w1"
      unfolding unfold by (simp only: body prod.case sum.case)
    also note rest
    also have "?w1\<lparr>fs := filter (\<lambda>e. \<not> (below ?stack' (fst e) \<and> snd e \<noteq> D)) (fs ?w1)\<rparr>
               = w\<lparr>fs := filter (\<lambda>e. \<not> (below (r # rest) (fst e) \<and> snd e \<noteq> D)) ?f\<rparr>"
      using eq by simp
    finally show ?thesis using Cons by simp
  qed
qed

text \<open>
  C9.  In a well-formed file system, clear_folder on an existing directory finishes (a bound
  above the number of entries plus one is enough for the walk) without an exception.
  Afterwards the directory is still there, no file is left at any path at or below it, every
  directory is a directory as before (the sub-directories remain), and every file outside the
  folder is as it was.
\<close>

theorem clear_folder_removes_files:
  assumes "well_formed (fs w)" and "isdir (fs w) folder" and "length (fs w) + 1 < n"
  shows "\<exists>w'. clear_folder n folder w = Some (Inr (), w')
           \<and> isdir (fs w') folder
           \<and> (\<forall>p. prefix folder p \<longrightarrow> file_at (fs w') p = None)
           \<and> (\<forall>p. isdir (fs w') p = isdir (fs w) p)
           \<and> (\<forall>p. \<not> prefix folder p \<longrightarrow> file_at (fs w') p = file_at (fs w) p)
           \<and> stdout w' = stdout w \<and> stdin w' = stdin w"
proof -
  let ?P = "\<lambda>e. \<not> (below [folder] (fst e) \<and> snd e \<noteq> D)"
  let ?w' = "w\<lparr>fs := filter ?P (fs w)\<rparr>"
  from assms(1) have dist: "distinct (map fst (fs w))" by (simp add: well_formed_def)
  have "card (dirs_below (fs w) [folder]) \<le> length (fs w) + 1" by (rule card_dirs_below)
  with assms(3) have fuel: "card (dirs_below (fs w) [folder]) < n" by simp
  have ex: "path_exists (fs w) folder" using assms(2) by (simp add: isdir_def path_exists_def)
  have "walk_for n [folder] (\<lambda>root dirs files. for_each files (\<lambda>file. os_remove (join root file))) w
        = Some (Inr (), ?w')"
    using assms(1,2) fuel by (intro walk_clear) simp_all
  with ex assms(2) have run: "clear_folder n folder w = Some (Inr (), ?w')"
    by (simp add: clear_folder_def)
  have keep: "\<forall>e\<in>set (fs w). snd e = D \<longrightarrow> ?P e" by simp
  have dirs: "isdir (fs ?w') p = isdir (fs w) p" for p
    using isdir_filter [OF assms(1) keep] by simp
  have inside: "file_at (fs ?w') p = None" if "prefix folder p" for p
  proof (cases "p = folder")
    case True
    with assms(2) dirs [of folder] show ?thesis by (simp add: file_at_def isdir_def)
  next
    case False
    with that have "below [folder] p" by (simp add: below_def strict_prefix_def)
    then show ?thesis using dist
      by (auto simp: file_at_def lookup_filter split: option.splits node.splits)
  qed
  have outside: "file_at (fs ?w') p = file_at (fs w) p" if "\<not> prefix folder p" for p
  proof -
    from that have nb: "\<not> below [folder] p" by (simp add: below_def strict_prefix_def)
    have "lookup (filter ?P (fs w)) p = lookup (fs w) p"
    proof (cases "p = []")
      case True
      then show ?thesis by (simp add: lookup_def)
    next
      case False
      with nb show ?thesis
        by (cases "lookup (fs w) p") (simp_all add: lookup_filter [OF dist])
    qed
    then show ?thesis by (simp add: file_at_def)
  qed
  from run dirs inside outside assms(2) show ?thesis
    by (intro exI [of _ ?w']) simp
qed

theorem clear_folder_removes_files_witness:
  "well_formed (fs cluttered_world) \<and> isdir (fs cluttered_world) [''srv'', ''mta'', ''updateinfo'']
   \<and> (\<exists>w'. clear_folder 11 [''srv'', ''mta'', ''updateinfo''] cluttered_world = Some (Inr (), w')
           \<and> isdir (fs w') [''srv'', ''mta'', ''updateinfo'']
           \<and> (\<forall>p. prefix [''srv'', ''mta'', ''updateinfo''] p \<longrightarrow> file_at (fs w') p = None)
           \<and> (\<forall>p. isdir (fs w') p = isdir (fs cluttered_world) p)
           \<and> (\<forall>p. \<not> prefix [''srv'', ''mta'', ''updateinfo''] p \<longrightarrow>
                    file_at (fs w') p = file_at (fs cluttered_world) p)
           \<and> stdout w' = stdout cluttered_world \<and> stdin w' = stdin cluttered_world)"
proof -
  have 1: "well_formed (fs cluttered_world)"
    by (simp add: cluttered_world_def well_formed_def proper_name_def isdir_def lookup_def)
  have 2: "isdir (fs cluttered_world) [''srv'', ''mta'', ''updateinfo'']"
    by (simp add: cluttered_world_def isdir_def lookup_def)
  have 3: "length (fs cluttered_world) + 1 < 11" by (simp add: cluttered_world_def)
  from clear_folder_removes_files [OF 1 2 3] 1 2 show ?thesis by simp
qed

text \<open>The same run, computed: the archive and both stale files are gone, the three directories
  remain.\<close>

lemma clear_folder_example:
  "clear_folder 11 [''srv'', ''mta'', ''updateinfo''] cluttered_world =
     Some (Inr (), cluttered_world\<lparr>fs :=
            [([''srv''], D), ([''srv'', ''mta''], D),
             ([''srv'', ''mta'', ''config.xml''], F ''settings''),
             ([''srv'', ''mta'', ''updateinfo''], D),
             ([''srv'', ''mta'', ''updateinfo'', ''server''], D),
             ([''srv'', ''mta'', ''updateinfo'', ''server'', ''x64''], D)]\<rparr>)"
  by (simp add: clear_folder_def cluttered_world_def path_exists_def isdir_def lookup_def
      eval_nat_numeral names_in_def join_def path_of_def os_remove_def seq_def bind_def ret_def)

section \<open>Effects of the file system calls\<close>

lemma effect_refl: "effect A B w w"
  by (simp add: effect_def)

lemma effect_same_fs: "fs w' = fs w \<Longrightarrow> effect A B w w'"
  by (simp add: effect_def)

lemma effect_trans: "effect A B w w' \<Longrightarrow> effect A B w' w'' \<Longrightarrow> effect A B w w''"
  unfolding effect_def
proof
  fix p
  assume 1: "\<forall>p. lookup (fs w') p = lookup (fs w) p
        \<or> (B p \<and> lookup (fs w) p = None \<and> lookup (fs w') p = Some D)
        \<or> (A p \<and> lookup (fs w) p \<noteq> Some D \<and> (\<exists>c. lookup (fs w') p = Some (F c)))"
    and 2: "\<forall>p. lookup (fs w'') p = lookup (fs w') p
        \<or> (B p \<and> lookup (fs w') p = None \<and> lookup (fs w'') p = Some D)
        \<or> (A p \<and> lookup (fs w') p \<noteq> Some D \<and> (\<exists>c. lookup (fs w'') p = Some (F c)))"
  from 1 [rule_format, of p] 2 [rule_format, of p]
  show "lookup (fs w'') p = lookup (fs w) p
        \<or> (B p \<and> lookup (fs w) p = None \<and> lookup (fs w'') p = Some D)
        \<or> (A p \<and> lookup (fs w) p \<noteq> Some D \<and> (\<exists>c. lookup (fs w'') p = Some (F c)))"
    by auto
qed

lemma effectD:
  "effect A B w w' \<Longrightarrow>
     lookup (fs w') p = lookup (fs w) p
     \<or> (B p \<and> lookup (fs w) p = None \<and> lookup (fs w') p = Some D)
     \<or> (A p \<and> lookup (fs w) p \<noteq> Some D \<and> (\<exists>c. lookup (fs w') p = Some (F c)))"
  by (simp add: effect_def)

lemma frameD:
  "frame A w w' \<Longrightarrow> \<not> A p \<Longrightarrow>
     lookup (fs w') p = lookup (fs w) p \<or> (lookup (fs w) p = None \<and> lookup (fs w') p = Some D)"
  by (simp add: frame_def)

lemma effect_mono:
  assumes "effect A B w w'" and "\<And>p. A p \<Longrightarrow> A' p" and "\<And>p. B p \<Longrightarrow> B' p"
  shows "effect A' B' w w'"
  unfolding effect_def
proof
  fix p
  from effectD [OF assms(1), of p] assms(2) [of p] assms(3) [of p]
  show "lookup (fs w') p = lookup (fs w) p
     \<or> (B' p \<and> lookup (fs w) p = None \<and> lookup (fs w') p = Some D)
     \<or> (A' p \<and> lookup (fs w) p \<noteq> Some D \<and> (\<exists>c. lookup (fs w') p = Some (F c)))"
    by blast
qed

lemma effect_frame: "effect A B w w' \<Longrightarrow> frame A w w'"
  unfolding frame_def using effectD [of A B w w'] by blast

lemma frame_refl: "frame A w w"
  by (simp add: frame_def)

lemma frame_trans: "frame A w w' \<Longrightarrow> frame A w' w'' \<Longrightarrow> frame A w w''"
  unfolding frame_def
proof (intro allI impI)
  fix p
  assume 1: "\<forall>p. \<not> A p \<longrightarrow> lookup (fs w') p = lookup (fs w) p \<or> (lookup (fs w) p = None \<and> lookup (fs w') p = Some D)"
    and 2: "\<forall>p. \<not> A p \<longrightarrow> lookup (fs w'') p = lookup (fs w') p \<or> (lookup (fs w') p = None \<and> lookup (fs w'') p = Some D)"
    and 3: "\<not> A p"
  from 1 [rule_format, OF 3] 2 [rule_format, OF 3]
  show "lookup (fs w'') p = lookup (fs w) p \<or> (lookup (fs w) p = None \<and> lookup (fs w'') p = Some D)"
    by auto
qed

lemma frame_mono: "frame A w w' \<Longrightarrow> (\<And>p. A p \<Longrightarrow> A' p) \<Longrightarrow> frame A' w w'"
  unfolding frame_def by blast

lemma frame_file_at: "frame A w w' \<Longrightarrow> \<not> A p \<Longrightarrow> file_at (fs w') p = file_at (fs w) p"
  using frameD [of A w w' p] by (auto simp: file_at_def)

lemma effect_isdir: "effect A B w w' \<Longrightarrow> isdir (fs w) p \<Longrightarrow> isdir (fs w') p"
  using effectD [of A B w w' p] by (auto simp: isdir_def)

lemma frame_isdir: "frame A w w' \<Longrightarrow> \<not> A p \<Longrightarrow> isdir (fs w) p \<Longrightarrow> isdir (fs w') p"
  using frameD [of A w w' p] by (auto simp: isdir_def)

lemma lookup_update:
  "p \<noteq> [] \<Longrightarrow> lookup (AList.update p v f) q = (if q = p then Some v else lookup f q)"
  by (simp add: lookup_def update_conv')

lemma lookup_delete:
  "lookup (AList.delete p f) q = (if q = p \<and> q \<noteq> [] then None else lookup f q)"
  by (simp add: lookup_def delete_conv')

lemma put_file_effect:
  assumes "lookup (fs w) p \<noteq> Some D"
  shows "effect (\<lambda>q. q = p) B w (snd (put p (F c) w))"
proof -
  from assms have "p \<noteq> []" by (auto simp: lookup_def)
  then show ?thesis using assms by (simp add: effect_def put_def lookup_update)
qed

lemma put_dir_effect:
  assumes "lookup (fs w) p = None"
  shows "effect A (\<lambda>q. q = p) w (snd (put p D w))"
proof -
  from assms have "p \<noteq> []" by (auto simp: lookup_def)
  then show ?thesis using assms by (simp add: effect_def put_def lookup_update)
qed

lemma os_mkdir_effect: "os_mkdir p w = (res, w') \<Longrightarrow> effect A (\<lambda>q. q = p) w w'"
  using put_dir_effect [of w p A]
  by (auto simp: os_mkdir_def path_exists_def effect_refl put_def split: if_splits option.splits)

lemma os_makedirs_effect: "os_makedirs p w = (res, w') \<Longrightarrow> effect A (\<lambda>q. prefix q p) w w'"
proof (induction p w arbitrary: res w' rule: os_makedirs.induct)
  case (1 p w)
  have last_step: "effect A (\<lambda>q. prefix q p) v v'" if "os_mkdir p v = (r, v')" for v v' r
    using os_mkdir_effect [OF that, of A] by (rule effect_mono) auto
  show ?case
  proof (cases "p \<noteq> [] \<and> \<not> path_exists (fs w) (butlast p)")
    case True
    obtain r1 w1 where up: "os_makedirs (butlast p) w = (r1, w1)" by (cases "os_makedirs (butlast p) w")
    from "1.IH" [OF True up] have "effect A (\<lambda>q. prefix q (butlast p)) w w1" .
    then have e1: "effect A (\<lambda>q. prefix q p) w w1"
      by (rule effect_mono) (auto intro: prefix_order.trans prefixeq_butlast)
    have eq: "os_makedirs p w =
        (case (r1, w1) of
           (Inl (FileExistsError q), w') \<Rightarrow> os_mkdir p w'
         | (Inl e, w') \<Rightarrow> (Inl e, w')
         | (Inr u, w') \<Rightarrow> os_mkdir p w')"
      using True up by (subst os_makedirs.simps) simp
    show ?thesis
    proof (cases r1)
      case (Inr u)
      with eq "1.prems" have "os_mkdir p w1 = (res, w')" by simp
      from e1 last_step [OF this] show ?thesis by (rule effect_trans)
    next
      case (Inl e)
      show ?thesis
      proof (cases "\<exists>q. e = FileExistsError q")
        case True
        with Inl eq "1.prems" have "os_mkdir p w1 = (res, w')" by auto
        from e1 last_step [OF this] show ?thesis by (rule effect_trans)
      next
        case False
        with Inl eq "1.prems" have "w' = w1" by (cases e) simp_all
        with e1 show ?thesis by simp
      qed
    qed
  next
    case False
    with "1.prems" have "os_mkdir p w = (res, w')"
      by (subst (asm) os_makedirs.simps) simp
    then show ?thesis by (rule last_step)
  qed
qed

lemma open_wb_effect: "open_wb p w = (res, w') \<Longrightarrow> effect (\<lambda>q. q = p) B w w'"
  using put_file_effect [of w p B "[]"]
  by (auto simp: open_wb_def effect_refl put_def split: option.splits node.splits)

lemma open_a_effect: "open_a p w = (res, w') \<Longrightarrow> effect (\<lambda>q. q = p) B w w'"
  using put_file_effect [of w p B "[]"]
  by (auto simp: open_a_def effect_refl put_def split: option.splits node.splits)

lemma file_write_effect: "file_write p d w = (res, w') \<Longrightarrow> effect (\<lambda>q. q = p) B w w'"
proof (cases "lookup (fs w) p")
  case None
  moreover assume "file_write p d w = (res, w')"
  ultimately show ?thesis by (auto simp: file_write_def effect_refl)
next
  case (Some v)
  assume r: "file_write p d w = (res, w')"
  show ?thesis
  proof (cases v)
    case (F c)
    with Some have "lookup (fs w) p \<noteq> Some D" by simp
    from put_file_effect [OF this, of B "c @ d"] r Some F show ?thesis
      by (auto simp: file_write_def)
  next
    case D
    with Some r show ?thesis by (auto simp: file_write_def effect_refl)
  qed
qed

lemma bind_effect:
  assumes "bind m k w = (res, w')"
    and "\<And>r w1. m w = (r, w1) \<Longrightarrow> effect A B w w1"
    and "\<And>x w1 r w2. m w = (Inr x, w1) \<Longrightarrow> k x w1 = (r, w2) \<Longrightarrow> effect A B w1 w2"
  shows "effect A B w w'"
proof (cases "m w")
  case (Pair r w1)
  show ?thesis
  proof (cases r)
    case (Inl e)
    with Pair assms(1) have "w' = w1" by (simp add: bind_def)
    with assms(2) [OF Pair] show ?thesis by simp
  next
    case (Inr x)
    with Pair assms(1) have "k x w1 = (res, w')" by (simp add: bind_def)
    with assms(3) Pair Inr have "effect A B w1 w'" by blast
    with assms(2) [OF Pair] show ?thesis by (rule effect_trans)
  qed
qed

lemma seq_effect:
  assumes "seq m k w = (res, w')"
    and "\<And>r w1. m w = (r, w1) \<Longrightarrow> effect A B w w1"
    and "\<And>w1 r w2. m w = (Inr (), w1) \<Longrightarrow> k w1 = (r, w2) \<Longrightarrow> effect A B w1 w2"
  shows "effect A B w w'"
  using assms unfolding seq_def by (rule bind_effect) auto

lemma when_fs_effect:
  assumes "when_fs c m w = (res, w')" and "\<And>r w1. m w = (r, w1) \<Longrightarrow> effect A B w w1"
  shows "effect A B w w'"
  using assms by (auto simp: when_fs_def effect_refl split: if_splits)

lemma for_each_effect:
  assumes "for_each xs body w = (res, w')"
    and "\<And>x w r w1. x \<in> set xs \<Longrightarrow> body x w = (r, w1) \<Longrightarrow> effect A B w w1"
  shows "effect A B w w'"
  using assms
proof (induction xs arbitrary: w res w')
  case Nil
  then show ?case by (simp add: ret_def effect_refl)
next
  case (Cons x xs)
  from Cons.prems(1) have "seq (body x) (for_each xs body) w = (res, w')" by simp
  then show ?case
  proof (rule seq_effect)
    fix r w1 assume "body x w = (r, w1)"
    then show "effect A B w w1" using Cons.prems(2) [of x] by simp
  next
    fix w1 r w2 assume "for_each xs body w1 = (r, w2)"
    then show "effect A B w1 w2"
    proof (rule Cons.IH)
      fix y v r' v' assume "y \<in> set xs" "body y v = (r', v')"
      then show "effect A B v v'" using Cons.prems(2) [of y v r' v'] by simp
    qed
  qed
qed

lemma walk_for_effect:
  assumes "walk_for n stack body w = Some (res, w')"
    and "\<forall>s\<in>set stack. prefix base s"
    and "\<And>r ds ns w res w1. prefix base r \<Longrightarrow> body r ds ns w = (res, w1) \<Longrightarrow> effect A B w w1"
  shows "effect A B w w'"
  using assms(1,2)
proof (induction n arbitrary: stack w res w')
  case 0
  then show ?case by (cases stack) (simp_all add: effect_refl)
next
  case (Suc n)
  show ?case
  proof (cases stack)
    case Nil
    with Suc.prems show ?thesis by (simp add: effect_refl)
  next
    case (Cons r rest)
    show ?thesis
    proof (cases "isdir (fs w) r")
      case False
      with Suc.prems Cons have "walk_for n rest body w = Some (res, w')" by simp
      with Suc.IH Suc.prems(2) Cons show ?thesis by simp
    next
      case True
      let ?names = "names_in (fs w) r"
      let ?dirs = "filter (\<lambda>d. isdir (fs w) (r @ [d])) ?names"
      let ?nondirs = "filter (\<lambda>d. \<not> isdir (fs w) (r @ [d])) ?names"
      obtain r1 w1 where b: "body r ?dirs ?nondirs w = (r1, w1)"
        by (cases "body r ?dirs ?nondirs w")
      from Suc.prems(2) Cons have pr: "prefix base r" by simp
      from assms(3) [OF pr b] have e1: "effect A B w w1" .
      show ?thesis
      proof (cases r1)
        case (Inl e)
        with Suc.prems(1) Cons True b have "w' = w1" by (simp add: Let_def)
        with e1 show ?thesis by simp
      next
        case (Inr u)
        with Suc.prems(1) Cons True b
        have "walk_for n (map (\<lambda>d. r @ [d]) ?dirs @ rest) body w1 = Some (res, w')"
          by (simp add: Let_def)
        moreover have "\<forall>s\<in>set (map (\<lambda>d. r @ [d]) ?dirs @ rest). prefix base s"
          using Suc.prems(2) Cons pr by (auto intro: prefix_order.trans)
        ultimately have "effect A B w1 w'" by (rule Suc.IH)
        with e1 show ?thesis by (rule effect_trans)
      qed
    qed
  qed
qed

section \<open>What update_server writes\<close>

lemma read_file_same: "read_file p w = (r, w') \<Longrightarrow> w' = w"
  by (auto simp: read_file_def split: option.splits node.splits)

lemma read_file_Inr: "read_file p w = (Inr c, w') \<Longrightarrow> file_at (fs w) p = Some c"
  by (auto simp: read_file_def file_at_def split: option.splits node.splits)

lemma shutil_copy2_effect:
  assumes "shutil_copy2 src dst w = (res, w')"
  shows "effect (\<lambda>q. q = (if isdir (fs w) dst then join dst (basename src) else dst)) B w w'"
proof -
  let ?d = "if isdir (fs w) dst then join dst (basename src) else dst"
  show ?thesis
  proof (cases "src = ?d \<and> path_exists (fs w) src")
    case True
    with assms have "w' = w" by (simp add: shutil_copy2_def Let_def)
    then show ?thesis by (simp add: effect_refl)
  next
    case False
    with assms have "bind (read_file src) (\<lambda>data. seq (open_wb ?d) (file_write ?d data)) w = (res, w')"
      by (simp add: shutil_copy2_def Let_def)
    then show ?thesis
    proof (rule bind_effect)
      fix r w1 assume "read_file src w = (r, w1)"
      then have "w1 = w" by (rule read_file_same)
      then show "effect (\<lambda>q. q = ?d) B w w1" by (simp only: effect_refl)
    next
      fix x w1 r w2
      assume "read_file src w = (Inr x, w1)" and "seq (open_wb ?d) (file_write ?d x) w1 = (r, w2)"
      from this(2) show "effect (\<lambda>q. q = ?d) B w1 w2"
        by (rule seq_effect) (auto intro: open_wb_effect file_write_effect)
    qed
  qed
qed

lemma shutil_copy2_content:
  assumes "shutil_copy2 src dst w = (Inr (), w')"
  shows "\<exists>c. file_at (fs w) src = Some c \<and>
             file_at (fs w') (if isdir (fs w) dst then join dst (basename src) else dst) = Some c"
proof -
  let ?d = "if isdir (fs w) dst then join dst (basename src) else dst"
  from assms have run: "bind (read_file src) (\<lambda>data. seq (open_wb ?d) (file_write ?d data)) w = (Inr (), w')"
    by (auto simp: shutil_copy2_def Let_def split: if_splits)
  obtain r w1 where rd: "read_file src w = (r, w1)" by (cases "read_file src w")
  with run obtain c where c: "r = Inr c" by (cases r) (auto simp: bind_def)
  from rd c have w1: "w1 = w" and src: "file_at (fs w) src = Some c"
    using read_file_same read_file_Inr by blast+
  from run rd c w1 have sq: "seq (open_wb ?d) (file_write ?d c) w = (Inr (), w')"
    by (simp add: bind_def)
  obtain r2 w2 where op: "open_wb ?d w = (r2, w2)" by (cases "open_wb ?d w")
  with sq have r2: "r2 = Inr ()" by (cases r2) (auto simp: seq_def bind_def)
  with op have lk: "lookup (fs w2) ?d = Some (F [])" using open_wb_result by blast
  then have ne: "?d \<noteq> []" by (auto simp: lookup_def split: if_splits)
  from sq op r2 have "file_write ?d c w2 = (Inr (), w')" by (simp add: seq_def bind_def)
  with lk have "w' = w2\<lparr>fs := AList.update ?d (F c) (fs w2)\<rparr>"
    by (simp add: file_write_def put_def)
  with ne have "file_at (fs w') ?d = Some c" by (simp add: file_at_def lookup_update)
  with src show ?thesis by blast
qed

lemma split_nonempty: "split c s \<noteq> []"
  by (induction s) (auto split: list.splits)

lemma split_segments: "seg \<in> set (split c s) \<Longrightarrow> c \<notin> set seg"
  by (induction s arbitrary: seg) (auto split: list.splits if_splits)

lemma split_last_suffix:
  "c \<notin> set suf \<Longrightarrow> suffix suf s \<Longrightarrow> suffix suf (last (split c s))"
proof (induction s)
  case Nil
  then show ?case by simp
next
  case (Cons x xs)
  show ?case
  proof (cases "suf = x # xs")
    case True
    with Cons.prems(1) have "c \<notin> set (x # xs)" by simp
    then have "split c (x # xs) = [x # xs]" by (rule split_no_sep)
    with True show ?thesis by simp
  next
    case False
    with Cons.prems(2) have "suffix suf xs" by (simp add: suffix_Cons)
    with Cons.IH Cons.prems(1) have IH: "suffix suf (last (split c xs))" by simp
    obtain w ws where sp: "split c xs = w # ws" using split_nonempty by (cases "split c xs") auto
    show ?thesis
    proof (cases "x = c")
      case True
      with sp IH show ?thesis by simp
    next
      case False
      with sp IH show ?thesis by (cases ws) (auto simp: suffix_ConsI)
    qed
  qed
qed

lemma last_filter_keep: "xs \<noteq> [] \<Longrightarrow> P (last xs) \<Longrightarrow> last (filter P xs) = last xs"
  by (induction xs rule: rev_induct) simp_all

lemma path_of_names_proper: "n \<in> set (path_of s) \<Longrightarrow> proper_name n"
  by (auto simp: path_of_def proper_name_def dest: split_segments)

lemma library_name:
  assumes "is_library n"
  shows "path_of n \<noteq> [] \<and> is_library (last (path_of n)) \<and> proper_name (last (path_of n))"
proof -
  let ?b = "last (split CHR ''/'' n)"
  from assms have lib: "is_library ?b"
    by (auto simp: is_library_def endswith_def intro: split_last_suffix)
  then have ne: "?b \<noteq> [] \<and> ?b \<noteq> ''.''"
    by (auto simp: is_library_def endswith_def suffix_def)
  have in_split: "?b \<in> set (split CHR ''/'' n)" using split_nonempty by simp
  with ne have "?b \<in> set (path_of n)" by (simp add: path_of_def)
  then have 1: "path_of n \<noteq> []" by auto
  have 2: "last (path_of n) = ?b"
    unfolding path_of_def using ne split_nonempty by (intro last_filter_keep) auto
  from 1 have "last (path_of n) \<in> set (path_of n)" by simp
  then have "proper_name (last (path_of n))" by (rule path_of_names_proper)
  with 1 2 lib show ?thesis by simp
qed

lemma prefix_butlast_strict: "p \<noteq> [] \<Longrightarrow> prefix q (butlast p) \<Longrightarrow> strict_prefix q p"
proof -
  assume ne: "p \<noteq> []" and "prefix q (butlast p)"
  then obtain zs where "butlast p = q @ zs" by (auto simp: prefix_def)
  with ne have p: "p = q @ (zs @ [last p])" by (metis append_butlast_last_id append_assoc)
  have "strict_prefix q (q @ (zs @ [last p]))" by (simp add: strict_prefix_def)
  with p show ?thesis by simp
qed

lemma relpath_below: "prefix b p \<Longrightarrow> relpath p b = drop (length b) p"
proof -
  assume pre: "prefix b p"
  have "prefix (longest_common_prefix p b) b" by (rule longest_common_prefix_prefix2)
  moreover from pre have "prefix b (longest_common_prefix p b)"
    by (intro longest_common_prefix_max_prefix) auto
  ultimately have "longest_common_prefix p b = b" by (rule prefix_order.antisym)
  then show ?thesis by (simp add: relpath_def)
qed

text \<open>Where copy_library writes for the file \<open>n\<close> of the directory \<open>r\<close>.\<close>

lemma copy_library_target:
  assumes "prefix bin r" and "is_library n"
  shows "dest @ relpath (join r n) bin = dest @ drop (length bin) r @ path_of n"
    and "basename (join r n) = last (path_of n)"
    and "basename (dest @ relpath (join r n) bin) = last (path_of n)"
    and "join (dest @ relpath (join r n) bin) (basename (join r n))
         = dest @ drop (length bin) r @ path_of n @ [last (path_of n)]"
proof -
  from library_name [OF assms(2)] have pn: "path_of n \<noteq> []" and pr: "proper_name (last (path_of n))"
    by auto
  from assms(1) have "prefix bin (join r n)" by (simp add: join_def)
  then have "relpath (join r n) bin = drop (length bin) (r @ path_of n)"
    by (simp add: relpath_below join_def)
  also from assms(1) have "\<dots> = drop (length bin) r @ path_of n"
    by (simp add: prefix_length_le)
  finally have rp: "relpath (join r n) bin = drop (length bin) r @ path_of n" .
  then show 1: "dest @ relpath (join r n) bin = dest @ drop (length bin) r @ path_of n" by simp
  from pn show 2: "basename (join r n) = last (path_of n)" by (simp add: basename_def join_def)
  from pn show "basename (dest @ relpath (join r n) bin) = last (path_of n)"
    by (simp add: rp basename_def)
  from pr show "join (dest @ relpath (join r n) bin) (basename (join r n))
         = dest @ drop (length bin) r @ path_of n @ [last (path_of n)]"
    by (simp add: 1 2 join_proper)
qed

lemma copy_library_effect:
  assumes "copy_library bin dest r n w = (res, w')" and "prefix bin r"
  shows "effect (\<lambda>q. is_library n \<and> (q = dest @ drop (length bin) r @ path_of n
                                      \<or> q = dest @ drop (length bin) r @ path_of n @ [last (path_of n)]))
                (\<lambda>q. is_library n \<and> strict_prefix q (dest @ drop (length bin) r @ path_of n)) w w'"
proof (cases "is_library n")
  case False
  with assms(1) show ?thesis by (simp add: copy_library_def ret_def effect_refl)
next
  case True
  let ?df = "dest @ relpath (join r n) bin"
  note t = copy_library_target [OF assms(2) True]
  from library_name [OF True] have pn: "path_of n \<noteq> []" by simp
  from assms(1) True have
    "seq (when_fs (\<lambda>f. \<not> path_exists f (dirname ?df)) (os_makedirs (dirname ?df)))
         (shutil_copy2 (join r n) ?df) w = (res, w')"
    by (simp add: copy_library_def Let_def)
  then show ?thesis
  proof (rule seq_effect)
    fix r1 w1
    assume "when_fs (\<lambda>f. \<not> path_exists f (dirname ?df)) (os_makedirs (dirname ?df)) w = (r1, w1)"
    then show "effect (\<lambda>q. is_library n \<and> (q = dest @ drop (length bin) r @ path_of n
                                      \<or> q = dest @ drop (length bin) r @ path_of n @ [last (path_of n)]))
                (\<lambda>q. is_library n \<and> strict_prefix q (dest @ drop (length bin) r @ path_of n)) w w1"
    proof (rule when_fs_effect)
      fix r2 w2 assume "os_makedirs (dirname ?df) w = (r2, w2)"
      then have "effect (\<lambda>q. is_library n \<and> (q = dest @ drop (length bin) r @ path_of n
                                      \<or> q = dest @ drop (length bin) r @ path_of n @ [last (path_of n)]))
                   (\<lambda>q. prefix q (dirname ?df)) w w2"
        by (rule os_makedirs_effect)
      then show "effect (\<lambda>q. is_library n \<and> (q = dest @ drop (length bin) r @ path_of n
                                      \<or> q = dest @ drop (length bin) r @ path_of n @ [last (path_of n)]))
                (\<lambda>q. is_library n \<and> strict_prefix q (dest @ drop (length bin) r @ path_of n)) w w2"
      proof (rule effect_mono)
        fix q assume "prefix q (dirname ?df)"
        with pn True show "is_library n \<and> strict_prefix q (dest @ drop (length bin) r @ path_of n)"
          unfolding t(1) dirname_def
          by (simp add: prefix_butlast_strict)
      qed simp
    qed
  next
    fix w1 r2 w2
    assume "shutil_copy2 (join r n) ?df w1 = (r2, w2)"
    then have "effect (\<lambda>q. q = (if isdir (fs w1) ?df then join ?df (basename (join r n)) else ?df))
                 (\<lambda>q. is_library n \<and> strict_prefix q (dest @ drop (length bin) r @ path_of n)) w1 w2"
      by (rule shutil_copy2_effect)
    then show "effect (\<lambda>q. is_library n \<and> (q = dest @ drop (length bin) r @ path_of n
                                      \<or> q = dest @ drop (length bin) r @ path_of n @ [last (path_of n)]))
                (\<lambda>q. is_library n \<and> strict_prefix q (dest @ drop (length bin) r @ path_of n)) w1 w2"
      by (rule effect_mono) (use True t in \<open>auto split: if_splits\<close>)
  qed
qed

lemma os_remove_frame: "os_remove p w = (r, w') \<Longrightarrow> frame (\<lambda>q. q = p) w w'"
  by (auto simp: os_remove_def frame_def lookup_delete split: option.splits node.splits)

lemma os_remove_isdir: "os_remove p w = (r, w') \<Longrightarrow> isdir (fs w) q \<Longrightarrow> isdir (fs w') q"
  by (auto simp: os_remove_def isdir_def lookup_delete split: option.splits node.splits)

lemma os_remove_gone: "os_remove p w = (Inr u, w') \<Longrightarrow> \<not> path_exists (fs w') p"
  by (auto simp: os_remove_def path_exists_def lookup_def delete_conv'
      split: option.splits node.splits if_splits)

text \<open>The last two statements of update_server: the installed executable is removed, then
  the staged one is copied.\<close>

lemma replace_executable:
  assumes "seq (when_fs (\<lambda>f. path_exists f d) (os_remove d)) (shutil_copy2 s d) w = (res, w')"
  shows "frame (\<lambda>q. q = d) w w' \<and> (isdir (fs w) q \<longrightarrow> isdir (fs w') q)
        \<and> (res = Inr () \<longrightarrow> s \<noteq> d \<longrightarrow> (\<exists>c. file_at (fs w) s = Some c \<and> file_at (fs w') d = Some c))
        \<and> (file_at (fs w) s = None \<longrightarrow> file_at (fs w) d \<noteq> None \<longrightarrow> \<not> path_exists (fs w') d)"
proof -
  obtain r1 w1 where rm: "when_fs (\<lambda>f. path_exists f d) (os_remove d) w = (r1, w1)"
    by (cases "when_fs (\<lambda>f. path_exists f d) (os_remove d) w")
  have f1: "frame (\<lambda>q. q = d) w w1"
    using rm os_remove_frame [of d w r1 w1] by (auto simp: when_fs_def frame_refl split: if_splits)
  have d1: "isdir (fs w) q \<Longrightarrow> isdir (fs w1) q"
    using rm os_remove_isdir [of d w r1 w1 q] by (auto simp: when_fs_def split: if_splits)
  show ?thesis
  proof (cases r1)
    case (Inl e)
    with assms rm have same: "w' = w1" "res = Inl e" by (simp_all add: seq_def bind_def)
    from rm Inl have "path_exists (fs w) d" and "os_remove d w = (Inl e, w1)"
      by (auto simp: when_fs_def split: if_splits)
    then have "w1 = w" "file_at (fs w) d = None"
      by (auto simp: os_remove_def file_at_def split: option.splits node.splits)
    with same f1 d1 show ?thesis by simp
  next
    case (Inr u)
    with assms rm have cp: "shutil_copy2 s d w1 = (res, w')" by (simp add: seq_def bind_def)
    from rm Inr have gone: "\<not> path_exists (fs w1) d"
      using os_remove_gone [of d w u w1] by (auto simp: when_fs_def split: if_splits)
    then have nd: "\<not> isdir (fs w1) d" by (simp add: isdir_def path_exists_def)
    from shutil_copy2_effect [OF cp, of "\<lambda>q. False"] nd
    have e2: "effect (\<lambda>q. q = d) (\<lambda>q. False) w1 w'" by simp
    then have f2: "frame (\<lambda>q. q = d) w1 w'" by (rule effect_frame)
    from f1 f2 have 1: "frame (\<lambda>q. q = d) w w'" by (rule frame_trans)
    have 2: "isdir (fs w) q \<longrightarrow> isdir (fs w') q" using d1 effect_isdir [OF e2] by blast
    have 3: "res = Inr () \<longrightarrow> s \<noteq> d \<longrightarrow> (\<exists>c. file_at (fs w) s = Some c \<and> file_at (fs w') d = Some c)"
    proof (intro impI)
      assume "res = Inr ()" and sd: "s \<noteq> d"
      with cp nd shutil_copy2_content [of s d w1 w']
      obtain c where "file_at (fs w1) s = Some c" "file_at (fs w') d = Some c" by auto
      moreover from f1 sd have "file_at (fs w1) s = file_at (fs w) s" by (rule frame_file_at)
      ultimately show "\<exists>c. file_at (fs w) s = Some c \<and> file_at (fs w') d = Some c" by simp
    qed
    have 4: "file_at (fs w) s = None \<longrightarrow> file_at (fs w) d \<noteq> None \<longrightarrow> \<not> path_exists (fs w') d"
    proof (intro impI)
      assume s: "file_at (fs w) s = None" and d: "file_at (fs w) d \<noteq> None"
      then have sd: "s \<noteq> d" by auto
      with f1 have "file_at (fs w1) s = file_at (fs w) s" by (rule frame_file_at)
      with s have none: "file_at (fs w1) s = None" by simp
      obtain r2 w2 where rd: "read_file s w1 = (r2, w2)" by (cases "read_file s w1")
      then have w2: "w2 = w1" by (rule read_file_same)
      from rd none have "\<exists>e. r2 = Inl e" using read_file_Inr [of s w1] by (cases r2) auto
      with cp sd nd rd w2 have "w' = w1"
        by (auto simp: shutil_copy2_def Let_def bind_def)
      with gone show "\<not> path_exists (fs w') d" by simp
    qed
    from 1 2 3 4 show ?thesis by blast
  qed
qed

lemma library_walk_effect:
  assumes "walk_for n [bin] (\<lambda>root dirs files. for_each files (copy_library bin dest root)) w = Some (res, w')"
  shows "effect (\<lambda>q. is_library (basename q)) (\<lambda>q. True) w w'"
  using assms
proof (rule walk_for_effect [where base = bin])
  show "\<forall>s\<in>set [bin]. prefix bin s" by simp
next
  fix r ds ns v res1 v1
  assume pr: "prefix bin r" and "for_each ns (copy_library bin dest r) v = (res1, v1)"
  from this(2) show "effect (\<lambda>q. is_library (basename q)) (\<lambda>q. True) v v1"
  proof (rule for_each_effect)
    fix x u r2 u1 assume "copy_library bin dest r x u = (r2, u1)"
    from copy_library_effect [OF this pr]
    show "effect (\<lambda>q. is_library (basename q)) (\<lambda>q. True) u u1"
    proof (rule effect_mono)
      fix q
      assume "is_library x \<and> (q = dest @ drop (length bin) r @ path_of x
                             \<or> q = dest @ drop (length bin) r @ path_of x @ [last (path_of x)])"
      with library_name [of x] show "is_library (basename q)" by (auto simp: basename_def)
    qed simp
  qed
qed

lemma update_server_steps:
  assumes "update_server n P ui sf w = Some (res, w')"
  obtains r1 w1 where
    "walk_for n [join (join ui ''server'') (SERVER_BINARIES_LOCATION P)]
       (\<lambda>root dirs files. for_each files
          (copy_library (join (join ui ''server'') (SERVER_BINARIES_LOCATION P))
                        (join sf (SERVER_BINARIES_LOCATION P)) root)) w = Some (r1, w1)"
    and "(\<exists>e. r1 = Inl e \<and> res = Inl e \<and> w' = w1) \<or>
         (r1 = Inr () \<and>
          seq (when_fs (\<lambda>f. path_exists f (join sf (EXEC_FILE_NAME P))) (os_remove (join sf (EXEC_FILE_NAME P))))
              (shutil_copy2 (join (join ui ''server'') (EXEC_FILE_NAME P)) (join sf (EXEC_FILE_NAME P))) w1
            = (res, w'))"
  using assms
  by (auto simp: update_server_def Let_def pseq_def pbind_def total_def
      split: option.splits sum.splits prod.splits)

lemma update_server_frame:
  assumes "update_server n P ui sf w = Some (res, w')"
  shows "frame (\<lambda>p. p = join sf (EXEC_FILE_NAME P) \<or> is_library (basename p)) w w'"
    and "isdir (fs w) q \<Longrightarrow> isdir (fs w') q"
proof -
  from assms obtain r1 w1 where
    walk: "walk_for n [join (join ui ''server'') (SERVER_BINARIES_LOCATION P)]
       (\<lambda>root dirs files. for_each files
          (copy_library (join (join ui ''server'') (SERVER_BINARIES_LOCATION P))
                        (join sf (SERVER_BINARIES_LOCATION P)) root)) w = Some (r1, w1)"
    and rest: "(\<exists>e. r1 = Inl e \<and> res = Inl e \<and> w' = w1) \<or>
         (r1 = Inr () \<and>
          seq (when_fs (\<lambda>f. path_exists f (join sf (EXEC_FILE_NAME P))) (os_remove (join sf (EXEC_FILE_NAME P))))
              (shutil_copy2 (join (join ui ''server'') (EXEC_FILE_NAME P)) (join sf (EXEC_FILE_NAME P))) w1
            = (res, w'))"
    by (rule update_server_steps)
  let ?A = "\<lambda>p. p = join sf (EXEC_FILE_NAME P) \<or> is_library (basename p)"
  from library_walk_effect [OF walk] have e1: "effect (\<lambda>q. is_library (basename q)) (\<lambda>q. True) w w1" .
  then have "frame (\<lambda>q. is_library (basename q)) w w1" by (rule effect_frame)
  then have f1: "frame ?A w w1" by (rule frame_mono) simp
  from rest show "frame ?A w w'"
  proof
    assume "\<exists>e. r1 = Inl e \<and> res = Inl e \<and> w' = w1"
    with f1 show ?thesis by auto
  next
    assume "r1 = Inr () \<and>
          seq (when_fs (\<lambda>f. path_exists f (join sf (EXEC_FILE_NAME P))) (os_remove (join sf (EXEC_FILE_NAME P))))
              (shutil_copy2 (join (join ui ''server'') (EXEC_FILE_NAME P)) (join sf (EXEC_FILE_NAME P))) w1
            = (res, w')"
    then have "frame (\<lambda>q. q = join sf (EXEC_FILE_NAME P)) w1 w'" using replace_executable by blast
    then have "frame ?A w1 w'" by (rule frame_mono) simp
    with f1 show ?thesis by (rule frame_trans)
  qed
  assume q: "isdir (fs w) q"
  with e1 have "isdir (fs w1) q" by (rule effect_isdir)
  with rest show "isdir (fs w') q" using replace_executable by blast
qed

lemma update_server_executable:
  assumes "update_server n P ui sf w = Some (Inr (), w')"
    and "\<not> is_library (basename (join (join ui ''server'') (EXEC_FILE_NAME P)))"
    and "join (join ui ''server'') (EXEC_FILE_NAME P) \<noteq> join sf (EXEC_FILE_NAME P)"
  shows "\<exists>c. file_at (fs w) (join (join ui ''server'') (EXEC_FILE_NAME P)) = Some c
            \<and> file_at (fs w') (join sf (EXEC_FILE_NAME P)) = Some c"
proof -
  from assms(1) obtain r1 w1 where
    walk: "walk_for n [join (join ui ''server'') (SERVER_BINARIES_LOCATION P)]
       (\<lambda>root dirs files. for_each files
          (copy_library (join (join ui ''server'') (SERVER_BINARIES_LOCATION P))
                        (join sf (SERVER_BINARIES_LOCATION P)) root)) w = Some (r1, w1)"
    and rest: "(\<exists>e. r1 = Inl e \<and> Inr () = Inl e \<and> w' = w1) \<or>
         (r1 = Inr () \<and>
          seq (when_fs (\<lambda>f. path_exists f (join sf (EXEC_FILE_NAME P))) (os_remove (join sf (EXEC_FILE_NAME P))))
              (shutil_copy2 (join (join ui ''server'') (EXEC_FILE_NAME P)) (join sf (EXEC_FILE_NAME P))) w1
            = (Inr (), w'))"
    by (rule update_server_steps)
  from library_walk_effect [OF walk] have "frame (\<lambda>q. is_library (basename q)) w w1"
    by (rule effect_frame)
  with assms(2) have same: "file_at (fs w1) (join (join ui ''server'') (EXEC_FILE_NAME P))
                     = file_at (fs w) (join (join ui ''server'') (EXEC_FILE_NAME P))"
    using frame_file_at by blast
  from rest have "seq (when_fs (\<lambda>f. path_exists f (join sf (EXEC_FILE_NAME P))) (os_remove (join sf (EXEC_FILE_NAME P))))
              (shutil_copy2 (join (join ui ''server'') (EXEC_FILE_NAME P)) (join sf (EXEC_FILE_NAME P))) w1
            = (Inr (), w')" by auto
  from replace_executable [OF this] assms(3) same show ?thesis by simp
qed

section \<open>The libraries update_server installs\<close>

lemma file_at_lookup: "file_at f p = Some c \<longleftrightarrow> lookup f p = Some (F c)"
  by (auto simp: file_at_def split: option.splits node.splits)

lemma prefix_snoc_cases: "prefix p (xs @ [x]) \<Longrightarrow> p = xs @ [x] \<or> prefix p xs"
  by (simp add: prefix_snoc)

lemma strict_prefix_append_same: "strict_prefix (xs @ ys) (xs @ zs) \<longleftrightarrow> strict_prefix ys zs"
  by (auto simp: strict_prefix_def)

lemma drop_below: "prefix bin r \<Longrightarrow> bin @ drop (length bin) r = r"
  by (auto simp: prefix_def)

text \<open>One step that writes at most the mirror of the entry \<open>n\<close> of \<open>r\<close> (or the entry of
  that name inside it) and makes at most directories above it.\<close>

lemma mirror_step:
  assumes wf: "well_formed (fs w0)" and apart: "mirrors_apart bin dest (fs w0)"
    and q: "file_at (fs w0) (bin @ rel) = Some c"
    and kept: "source_kept bin w0 v" and nd: "\<not> isdir (fs v) (dest @ rel)"
    and pr: "prefix bin r" and ex: "path_exists (fs w0) (r @ [n])" and lib: "is_library n"
    and nod: "\<not> isdir (fs w0) (r @ [n])"
    and eff: "effect (\<lambda>p. p = dest @ drop (length bin) r @ [n] \<or> p = dest @ drop (length bin) r @ [n] @ [n])
                     (\<lambda>p. strict_prefix p (dest @ drop (length bin) r @ [n])) v v1"
  shows "source_kept bin w0 v1" and "\<not> isdir (fs v1) (dest @ rel)"
    and "r @ [n] \<noteq> bin @ rel \<Longrightarrow> file_at (fs v) (dest @ rel) = Some c \<Longrightarrow> file_at (fs v1) (dest @ rel) = Some c"
proof -
  let ?df = "dest @ drop (length bin) r @ [n]"
  from ex obtain val where ent: "(r @ [n], val) \<in> set (fs w0)"
    by (auto simp: path_exists_def dest: lookup_in)
  from pr have prn: "prefix bin (r @ [n])" by (simp add: prefix_prefix)
  from pr have dr: "drop (length bin) (r @ [n]) = drop (length bin) r @ [n]"
    by (simp add: prefix_length_le)
  have "is_library (basename (r @ [n]))" using lib by (simp add: basename_def)
  with apart ent prn have "\<not> prefix bin (dest @ drop (length bin) (r @ [n])) \<and>
        \<not> prefix (dest @ drop (length bin) (r @ [n])) bin"
    unfolding mirrors_apart_def by (metis fst_conv)
  then have ap: "\<not> prefix bin ?df" "\<not> prefix ?df bin" unfolding dr by blast+
  from q have qf: "lookup (fs w0) (bin @ rel) = Some (F c)" by (simp add: file_at_lookup)
  then have qex: "path_exists (fs w0) (bin @ rel)" by (simp add: path_exists_def)
  \<comment> \<open>the file \<open>bin @ rel\<close> is not a directory on the way to \<open>r @ [n]\<close>\<close>
  have not_above: "\<not> strict_prefix (bin @ rel) (r @ [n])"
  proof
    assume "strict_prefix (bin @ rel) (r @ [n])"
    with wf ex have "isdir (fs w0) (bin @ rel)" by (rule ancestors_are_dirs)
    with qf show False by (simp add: isdir_def)
  qed
  \<comment> \<open>and nothing lies below the non-directory \<open>r @ [n]\<close>\<close>
  have not_below: "\<not> strict_prefix (r @ [n]) (bin @ rel)"
  proof
    assume "strict_prefix (r @ [n]) (bin @ rel)"
    with wf qex have "isdir (fs w0) (r @ [n])" by (rule ancestors_are_dirs)
    with nod show False by simp
  qed
  show "source_kept bin w0 v1"
    unfolding source_kept_def
  proof (intro allI impI)
    fix p assume p: "prefix bin p"
    have "\<not> strict_prefix p ?df"
    proof
      assume "strict_prefix p ?df"
      with p have "prefix bin ?df" by (auto simp: strict_prefix_def intro: prefix_order.trans)
      with ap show False by simp
    qed
    moreover have "p \<noteq> ?df" using p ap by auto
    moreover have "p \<noteq> ?df @ [n]"
    proof
      assume "p = ?df @ [n]"
      with p have "prefix bin (?df @ [n])" by simp
      then have "bin = ?df @ [n] \<or> prefix bin ?df" by (rule prefix_snoc_cases)
      moreover have "prefix ?df bin" if "bin = ?df @ [n]" using that by (metis prefixI)
      ultimately show False using ap by blast
    qed
    ultimately have "lookup (fs v1) p = lookup (fs v) p"
      using effectD [OF eff, of p] by auto
    with kept p show "lookup (fs v1) p = lookup (fs w0) p" by (simp add: source_kept_def)
  qed
  have rel_df: "dest @ rel = ?df \<longleftrightarrow> r @ [n] = bin @ rel"
  proof -
    have "dest @ rel = ?df \<longleftrightarrow> rel = drop (length bin) r @ [n]" by simp
    also have "\<dots> \<longleftrightarrow> bin @ rel = bin @ drop (length bin) r @ [n]" by simp
    also have "\<dots> \<longleftrightarrow> bin @ rel = r @ [n]" using drop_below [OF pr] by (metis append_assoc)
    finally show ?thesis by auto
  qed
  have not_inner: "dest @ rel \<noteq> ?df @ [n]"
  proof
    assume "dest @ rel = ?df @ [n]"
    then have "rel = drop (length bin) r @ [n] @ [n]" by simp
    then have "bin @ rel = (r @ [n]) @ [n]" using drop_below [OF pr] by (metis append_assoc)
    then have "strict_prefix (r @ [n]) (bin @ rel)" by (simp add: strict_prefix_def)
    with not_below show False by simp
  qed
  have not_made: "\<not> strict_prefix (dest @ rel) ?df"
  proof
    assume "strict_prefix (dest @ rel) ?df"
    then have "strict_prefix rel (drop (length bin) r @ [n])" by (simp only: strict_prefix_append_same)
    then have "strict_prefix (bin @ rel) (bin @ drop (length bin) r @ [n])" by (simp only: strict_prefix_append_same)
    then have "strict_prefix (bin @ rel) (r @ [n])" using drop_below [OF pr] by (metis append_assoc)
    with not_above show False by simp
  qed
  from effectD [OF eff, of "dest @ rel"] not_made
  have cases: "lookup (fs v1) (dest @ rel) = lookup (fs v) (dest @ rel)
      \<or> ((dest @ rel = ?df \<or> dest @ rel = ?df @ [n]) \<and> (\<exists>c'. lookup (fs v1) (dest @ rel) = Some (F c')))"
    by auto
  with nd show "\<not> isdir (fs v1) (dest @ rel)" by (auto simp: isdir_def)
  assume "r @ [n] \<noteq> bin @ rel" and "file_at (fs v) (dest @ rel) = Some c"
  with cases rel_df not_inner show "file_at (fs v1) (dest @ rel) = Some c"
    by (auto simp: file_at_def)
qed

lemma copy_library_step:
  assumes wf: "well_formed (fs w0)" and apart: "mirrors_apart bin dest (fs w0)"
    and q: "file_at (fs w0) (bin @ rel) = Some c" and rel: "rel \<noteq> []" "is_library (last rel)"
    and kept: "source_kept bin w0 v" and nd: "\<not> isdir (fs v) (dest @ rel)"
    and pr: "prefix bin r" and ex: "path_exists (fs w0) (r @ [n])" and proper: "proper_name n"
    and nod: "\<not> isdir (fs w0) (r @ [n])"
    and run: "copy_library bin dest r n v = (Inr (), v1)"
  shows "source_kept bin w0 v1 \<and> \<not> isdir (fs v1) (dest @ rel)
       \<and> (r @ [n] \<noteq> bin @ rel \<longrightarrow> file_at (fs v) (dest @ rel) = Some c \<longrightarrow> file_at (fs v1) (dest @ rel) = Some c)
       \<and> (r @ [n] = bin @ rel \<longrightarrow> file_at (fs v1) (dest @ rel) = Some c)"
proof (cases "is_library n")
  case False
  with run have "v1 = v" by (simp add: copy_library_def ret_def)
  moreover have "r @ [n] \<noteq> bin @ rel"
  proof
    assume "r @ [n] = bin @ rel"
    then have "last (r @ [n]) = last (bin @ rel)" by simp
    with rel have "n = last rel" by simp
    with rel False show False by simp
  qed
  ultimately show ?thesis using kept nd by simp
next
  case True
  let ?df = "dest @ drop (length bin) r @ [n]"
  from proper have pn: "path_of n = [n]" by (rule path_of_proper)
  note t = copy_library_target [OF pr True]
  have df: "dest @ relpath (join r n) bin = ?df" using t(1) [of dest] pn by simp
  have src: "join r n = r @ [n]" using proper by (rule join_proper)
  have df': "dest @ relpath (r @ [n]) bin = ?df" using df src by simp
  \<comment> \<open>the whole step\<close>
  from copy_library_effect [OF run pr] True pn
  have "effect (\<lambda>p. p = ?df \<or> p = ?df @ [n]) (\<lambda>p. strict_prefix p ?df) v v1"
    by (elim effect_mono) auto
  then have eff: "effect (\<lambda>p. p = dest @ drop (length bin) r @ [n] \<or> p = dest @ drop (length bin) r @ [n] @ [n])
                     (\<lambda>p. strict_prefix p (dest @ drop (length bin) r @ [n])) v v1" by simp
  note m = mirror_step [OF wf apart q kept nd pr ex True nod eff]
  \<comment> \<open>its two halves\<close>
  from run True have sq:
    "seq (when_fs (\<lambda>f. \<not> path_exists f (dirname ?df)) (os_makedirs (dirname ?df)))
         (shutil_copy2 (r @ [n]) ?df) v = (Inr (), v1)"
    by (simp add: copy_library_def Let_def src df')
  obtain r1 vm where mk: "when_fs (\<lambda>f. \<not> path_exists f (dirname ?df)) (os_makedirs (dirname ?df)) v = (r1, vm)"
    by (cases "when_fs (\<lambda>f. \<not> path_exists f (dirname ?df)) (os_makedirs (dirname ?df)) v")
  with sq have r1: "r1 = Inr ()" by (cases r1) (auto simp: seq_def bind_def)
  with sq mk have cp: "shutil_copy2 (r @ [n]) ?df vm = (Inr (), v1)" by (simp add: seq_def bind_def)
  from mk have "effect (\<lambda>p. False) (\<lambda>p. prefix p (dirname ?df)) v vm"
    by (rule when_fs_effect) (rule os_makedirs_effect)
  then have "effect (\<lambda>p. p = ?df \<or> p = ?df @ [n]) (\<lambda>p. strict_prefix p ?df) v vm"
    by (rule effect_mono) (auto simp: dirname_def intro: prefix_butlast_strict)
  then have effm: "effect (\<lambda>p. p = dest @ drop (length bin) r @ [n] \<or> p = dest @ drop (length bin) r @ [n] @ [n])
                     (\<lambda>p. strict_prefix p (dest @ drop (length bin) r @ [n])) v vm" by simp
  note mm = mirror_step [OF wf apart q kept nd pr ex True nod effm]
  have hit: "file_at (fs v1) (dest @ rel) = Some c" if eq: "r @ [n] = bin @ rel"
  proof -
    from eq have "bin @ rel = bin @ drop (length bin) r @ [n]" using drop_below [OF pr] by (metis append_assoc)
    then have dr: "dest @ rel = ?df" by simp
    with mm(2) have "\<not> isdir (fs vm) ?df" by simp
    with shutil_copy2_content [OF cp] obtain c' where
      c': "file_at (fs vm) (r @ [n]) = Some c'" "file_at (fs v1) ?df = Some c'" by auto
    from pr have "prefix bin (r @ [n])" by (simp add: prefix_prefix)
    with mm(1) have "lookup (fs vm) (r @ [n]) = lookup (fs w0) (r @ [n])" by (simp add: source_kept_def)
    with q eq c'(1) have "c' = c" by (simp add: file_at_def)
    with c'(2) dr show ?thesis by simp
  qed
  from m hit show ?thesis by blast
qed

lemma copy_loop:
  assumes wf: "well_formed (fs w0)" and apart: "mirrors_apart bin dest (fs w0)"
    and q: "file_at (fs w0) (bin @ rel) = Some c" and rel: "rel \<noteq> []" "is_library (last rel)"
    and pr: "prefix bin r"
  shows "source_kept bin w0 v \<Longrightarrow> \<not> isdir (fs v) (dest @ rel) \<Longrightarrow>
         \<forall>n\<in>set ns. proper_name n \<and> path_exists (fs w0) (r @ [n]) \<and> \<not> isdir (fs w0) (r @ [n]) \<Longrightarrow>
         for_each ns (copy_library bin dest r) v = (Inr (), v1) \<Longrightarrow>
         source_kept bin w0 v1 \<and> \<not> isdir (fs v1) (dest @ rel)
         \<and> (file_at (fs v) (dest @ rel) = Some c \<longrightarrow> file_at (fs v1) (dest @ rel) = Some c)
         \<and> ((\<exists>n\<in>set ns. r @ [n] = bin @ rel) \<longrightarrow> file_at (fs v1) (dest @ rel) = Some c)"
proof (induction ns arbitrary: v)
  case Nil
  then show ?case by (simp add: ret_def)
next
  case (Cons n ns)
  obtain r2 v2 where st: "copy_library bin dest r n v = (r2, v2)" by (cases "copy_library bin dest r n v")
  with Cons.prems(4) have r2: "r2 = Inr ()" by (cases r2) (auto simp: seq_def bind_def)
  with st Cons.prems(4) have rest: "for_each ns (copy_library bin dest r) v2 = (Inr (), v1)"
    by (simp add: seq_def bind_def)
  from Cons.prems(3) have n: "proper_name n" "path_exists (fs w0) (r @ [n])" "\<not> isdir (fs w0) (r @ [n])"
    by auto
  from st r2 have st': "copy_library bin dest r n v = (Inr (), v2)" by simp
  note s = copy_library_step [OF wf apart q rel Cons.prems(1) Cons.prems(2) pr n(2) n(1) n(3) st']
  from s have k2: "source_kept bin w0 v2" and nd2: "\<not> isdir (fs v2) (dest @ rel)" by auto
  from Cons.prems(3) have "\<forall>n\<in>set ns. proper_name n \<and> path_exists (fs w0) (r @ [n]) \<and> \<not> isdir (fs w0) (r @ [n])"
    by simp
  from Cons.IH [OF k2 nd2 this rest] s show ?case by auto
qed

lemma in_set_lookup: "(p, v) \<in> set f \<Longrightarrow> p \<noteq> [] \<Longrightarrow> lookup f p \<noteq> None"
  by (auto simp: lookup_def dest: weak_map_of_SomeI)

lemma library_walk:
  assumes wf: "well_formed (fs w0)" and apart: "mirrors_apart bin dest (fs w0)"
    and q: "file_at (fs w0) (bin @ rel) = Some c" and rel: "rel \<noteq> []" "is_library (last rel)"
  shows "source_kept bin w0 w \<Longrightarrow> \<not> isdir (fs w) (dest @ rel) \<Longrightarrow> \<forall>s\<in>set stack. prefix bin s \<Longrightarrow>
         (\<exists>s\<in>set stack. strict_prefix s (bin @ rel)) \<or> file_at (fs w) (dest @ rel) = Some c \<Longrightarrow>
         walk_for n stack (\<lambda>root dirs files. for_each files (copy_library bin dest root)) w = Some (Inr (), w') \<Longrightarrow>
         file_at (fs w') (dest @ rel) = Some c"
proof (induction n arbitrary: stack w)
  case 0
  then show ?case by (cases stack) auto
next
  case (Suc n)
  let ?body = "\<lambda>root dirs files. for_each files (copy_library bin dest root)"
  from q have qf: "lookup (fs w0) (bin @ rel) = Some (F c)" by (simp add: file_at_lookup)
  then have qex: "path_exists (fs w0) (bin @ rel)" by (simp add: path_exists_def)
  have above: "isdir (fs w) s" if "prefix bin s" "strict_prefix s (bin @ rel)" for s
  proof -
    from wf qex that(2) have "isdir (fs w0) s" by (rule ancestors_are_dirs)
    with Suc.prems(1) that(1) show ?thesis by (simp add: source_kept_def isdir_def)
  qed
  show ?case
  proof (cases stack)
    case Nil
    with Suc.prems show ?thesis by auto
  next
    case (Cons r rest)
    from Suc.prems(3) Cons have pr: "prefix bin r" by simp
    show ?thesis
    proof (cases "isdir (fs w) r")
      case False
      with Suc.prems(5) Cons have run: "walk_for n rest ?body w = Some (Inr (), w')" by simp
      from False above pr have "\<not> strict_prefix r (bin @ rel)" by blast
      with Suc.prems(4) Cons
      have "(\<exists>s\<in>set rest. strict_prefix s (bin @ rel)) \<or> file_at (fs w) (dest @ rel) = Some c" by auto
      moreover from Suc.prems(3) Cons have "\<forall>s\<in>set rest. prefix bin s" by simp
      ultimately show ?thesis using Suc.IH Suc.prems(1,2) run by blast
    next
      case True
      let ?names = "names_in (fs w) r"
      let ?dirs = "filter (\<lambda>d. isdir (fs w) (r @ [d])) ?names"
      let ?nondirs = "filter (\<lambda>d. \<not> isdir (fs w) (r @ [d])) ?names"
      let ?stack' = "map (\<lambda>d. r @ [d]) ?dirs @ rest"
      obtain r1 w1 where b: "for_each ?nondirs (copy_library bin dest r) w = (r1, w1)"
        by (cases "for_each ?nondirs (copy_library bin dest r) w")
      with Suc.prems(5) Cons True have r1: "r1 = Inr ()"
        by (cases r1) (auto simp: Let_def)
      with Suc.prems(5) Cons True b have run: "walk_for n ?stack' ?body w1 = Some (Inr (), w')"
        by (simp add: Let_def)
      have same: "lookup (fs w) (r @ [m]) = lookup (fs w0) (r @ [m])" for m
        using Suc.prems(1) pr by (simp add: source_kept_def prefix_prefix)
      have names: "\<forall>m\<in>set ?nondirs. proper_name m \<and> path_exists (fs w0) (r @ [m]) \<and> \<not> isdir (fs w0) (r @ [m])"
      proof
        fix m assume m: "m \<in> set ?nondirs"
        then obtain val where "(r @ [m], val) \<in> set (fs w)" by (auto simp: names_in_iff)
        then have "lookup (fs w) (r @ [m]) \<noteq> None" by (rule in_set_lookup) simp
        with same have ex: "path_exists (fs w0) (r @ [m])" by (simp add: path_exists_def)
        then obtain val' where "(r @ [m], val') \<in> set (fs w0)"
          by (auto simp: path_exists_def dest: lookup_in)
        with wf have "proper_name m" by (fastforce simp: well_formed_def)
        moreover from m same have "\<not> isdir (fs w0) (r @ [m])" by (simp add: isdir_def)
        ultimately show "proper_name m \<and> path_exists (fs w0) (r @ [m]) \<and> \<not> isdir (fs w0) (r @ [m])"
          using ex by simp
      qed
      from b r1 have b': "for_each ?nondirs (copy_library bin dest r) w = (Inr (), w1)" by simp
      note loop = copy_loop [OF wf apart q rel pr Suc.prems(1) Suc.prems(2) names b']
      from loop have k1: "source_kept bin w0 w1" and nd1: "\<not> isdir (fs w1) (dest @ rel)" by auto
      have st: "\<forall>s\<in>set ?stack'. prefix bin s"
        using Suc.prems(3) Cons pr by (auto simp: prefix_prefix)
      have pend: "(\<exists>s\<in>set ?stack'. strict_prefix s (bin @ rel)) \<or> file_at (fs w1) (dest @ rel) = Some c"
      proof (cases "file_at (fs w) (dest @ rel) = Some c")
        case True
        with loop show ?thesis by simp
      next
        case False
        with Suc.prems(4) Cons obtain s where s: "s \<in> set (r # rest)" "strict_prefix s (bin @ rel)" by auto
        show ?thesis
        proof (cases "s \<in> set rest")
          case True
          with s show ?thesis by auto
        next
          case False
          with s have sr: "strict_prefix r (bin @ rel)" by simp
          then obtain zs where zs: "bin @ rel = r @ zs" "zs \<noteq> []"
            by (auto simp: strict_prefix_def prefix_def)
          then obtain x more where xm: "bin @ rel = r @ x # more" by (cases zs) auto
          show ?thesis
          proof (cases more)
            case Nil
            with xm have eq: "r @ [x] = bin @ rel" by simp
            with qf same [of x] have lk: "lookup (fs w) (r @ [x]) = Some (F c)" by simp
            then have "(r @ [x], F c) \<in> set (fs w)" by (rule lookup_in) simp
            then have "x \<in> set ?names" by (auto simp: names_in_iff)
            moreover from lk have "\<not> isdir (fs w) (r @ [x])" by (simp add: isdir_def)
            ultimately have "x \<in> set ?nondirs" by simp
            with eq loop show ?thesis by blast
          next
            case (Cons y ys)
            with xm have sp: "strict_prefix (r @ [x]) (bin @ rel)" by (simp add: strict_prefix_def)
            from pr have "prefix bin (r @ [x])" by (simp add: prefix_prefix)
            with sp have d: "isdir (fs w) (r @ [x])" using above by blast
            then have "(r @ [x], D) \<in> set (fs w)" by (auto simp: isdir_def dest: lookup_in)
            then have "x \<in> set ?names" by (auto simp: names_in_iff)
            with d have "r @ [x] \<in> set ?stack'" by simp
            with sp show ?thesis by blast
          qed
        qed
      qed
      from Suc.IH [OF k1 nd1 st pend run] show ?thesis .
    qed
  qed
qed

lemma source_kept_refl: "source_kept bin w w"
  by (simp add: source_kept_def)

lemma update_server_library:
  assumes run: "update_server n P ui sf w = Some (Inr (), w')"
    and wf: "well_formed (fs w)"
    and apart: "mirrors_apart (join (join ui ''server'') (SERVER_BINARIES_LOCATION P))
                              (join sf (SERVER_BINARIES_LOCATION P)) (fs w)"
    and q: "file_at (fs w) (join (join ui ''server'') (SERVER_BINARIES_LOCATION P) @ rel) = Some c"
    and rel: "rel \<noteq> []" "is_library (last rel)"
    and nd: "\<not> isdir (fs w) (join sf (SERVER_BINARIES_LOCATION P) @ rel)"
    and exe: "\<not> is_library (basename (join sf (EXEC_FILE_NAME P)))"
  shows "file_at (fs w') (join sf (SERVER_BINARIES_LOCATION P) @ rel) = Some c"
proof -
  let ?bin = "join (join ui ''server'') (SERVER_BINARIES_LOCATION P)"
  let ?dest = "join sf (SERVER_BINARIES_LOCATION P)"
  from run obtain r1 w1 where
    walk: "walk_for n [?bin] (\<lambda>root dirs files. for_each files (copy_library ?bin ?dest root)) w = Some (r1, w1)"
    and rest: "(\<exists>e. r1 = Inl e \<and> Inr () = Inl e \<and> w' = w1) \<or>
         (r1 = Inr () \<and>
          seq (when_fs (\<lambda>f. path_exists f (join sf (EXEC_FILE_NAME P))) (os_remove (join sf (EXEC_FILE_NAME P))))
              (shutil_copy2 (join (join ui ''server'') (EXEC_FILE_NAME P)) (join sf (EXEC_FILE_NAME P))) w1
            = (Inr (), w'))"
    by (rule update_server_steps)
  from rest have r1: "r1 = Inr ()" and tail:
    "seq (when_fs (\<lambda>f. path_exists f (join sf (EXEC_FILE_NAME P))) (os_remove (join sf (EXEC_FILE_NAME P))))
              (shutil_copy2 (join (join ui ''server'') (EXEC_FILE_NAME P)) (join sf (EXEC_FILE_NAME P))) w1
            = (Inr (), w')" by auto
  from rel have "strict_prefix ?bin (?bin @ rel)" by (simp add: strict_prefix_def)
  then have pend: "(\<exists>s\<in>set [?bin]. strict_prefix s (?bin @ rel)) \<or> file_at (fs w) (?dest @ rel) = Some c"
    by simp
  from walk r1 have walk': "walk_for n [?bin] (\<lambda>root dirs files. for_each files (copy_library ?bin ?dest root)) w = Some (Inr (), w1)"
    by simp
  have "file_at (fs w1) (?dest @ rel) = Some c"
    by (rule library_walk [OF wf apart q rel source_kept_refl nd _ pend walk']) simp
  moreover from rel have "basename (?dest @ rel) = last rel" by (simp add: basename_def)
  with rel exe have "?dest @ rel \<noteq> join sf (EXEC_FILE_NAME P)" by auto
  with replace_executable [OF tail] have "file_at (fs w') (?dest @ rel) = file_at (fs w1) (?dest @ rel)"
    using frame_file_at by blast
  ultimately show ?thesis by simp
qed

section \<open>update_server\<close>

lemma resolve_names:
  assumes "resolve arch os bits w = (Inr P, w')"
  shows "proper_name (EXEC_FILE_NAME P) \<and> \<not> is_library (EXEC_FILE_NAME P)
         \<and> EXEC_FILE_NAME P \<noteq> ''updates.log''"
proof -
  have "map_of BUILD_STRINGS arch \<noteq> None" using assms
    by (auto simp: resolve_def dict_get3_def dict_get_def bind_def lift_def split: option.splits)
  then have a: "arch = ''arm'' \<or> arch = ''x86''" by (auto simp: BUILD_STRINGS_def split: if_splits)
  have "\<exists>d. map_of BUILD_STRINGS arch = Some d \<and> map_of d os \<noteq> None" using assms
    by (auto simp: resolve_def dict_get3_def dict_get_def bind_def lift_def split: option.splits)
  with a have b: "os = ''Windows'' \<or> os = ''Linux''" by (auto simp: BUILD_STRINGS_def split: if_splits)
  have "\<exists>d e. map_of BUILD_STRINGS arch = Some d \<and> map_of d os = Some e \<and> map_of e bits \<noteq> None" using assms
    by (auto simp: resolve_def dict_get3_def dict_get_def bind_def lift_def split: option.splits)
  with a b have c: "bits = ''64'' \<or> bits = ''32''" by (auto simp: BUILD_STRINGS_def split: if_splits)
  from a b c assms show ?thesis
    by (auto simp: resolve_def dict_get3_def dict_get_def BUILD_STRINGS_def EXEC_FILE_NAMES_def
        SERVER_BINARIES_LOCATIONS_def bind_def lift_def seq_def print_def exit_def raise_def ret_def
        proper_name_def is_library_def endswith_def suffix_to_prefix)
qed

section \<open>Relations kept by the calls and the stages\<close>

lemma steady_frame: "steady (frame A)"
  unfolding steady_def
proof (intro conjI allI impI)
  fix w w' :: world assume "fs w' = fs w"
  then show "frame A w w'" by (simp add: frame_def)
next
  fix a b c assume "frame A a b" "frame A b c"
  then show "frame A a c" by (rule frame_trans)
qed

lemma steady_dir_kept: "steady (dir_kept p)"
  by (simp add: steady_def dir_kept_def)

lemma steady_same: "steady R \<Longrightarrow> fs w' = fs w \<Longrightarrow> R w w'"
  by (simp add: steady_def)

lemma steady_trans: "steady R \<Longrightarrow> R a b \<Longrightarrow> R b c \<Longrightarrow> R a c"
  unfolding steady_def by blast

lemma keepsD: "keeps R m \<Longrightarrow> m w = (r, w') \<Longrightarrow> R w w'"
  by (simp add: keeps_def)

lemma keeps_pD: "keeps_p R m \<Longrightarrow> m w = Some (r, w') \<Longrightarrow> R w w'"
  by (simp add: keeps_p_def)

lemma keeps_same:
  assumes "steady R" and "\<And>w r w'. m w = (r, w') \<Longrightarrow> fs w' = fs w"
  shows "keeps R m"
  unfolding keeps_def using assms steady_same by blast

lemma keeps_ret: "steady R \<Longrightarrow> keeps R (ret x)"
  by (rule keeps_same) (auto simp: ret_def)

lemma keeps_raise: "steady R \<Longrightarrow> keeps R (raise e)"
  by (rule keeps_same) (auto simp: raise_def)

lemma keeps_exit: "steady R \<Longrightarrow> keeps R (exit code)"
  by (simp add: exit_def keeps_raise)

lemma keeps_print: "steady R \<Longrightarrow> keeps R (print s)"
  by (rule keeps_same) (auto simp: print_def)

lemma keeps_lift: "steady R \<Longrightarrow> keeps R (lift r)"
  by (rule keeps_same) (auto simp: lift_def)

lemma keeps_read_file: "steady R \<Longrightarrow> keeps R (read_file p)"
  by (rule keeps_same) (auto dest: read_file_same)

lemma keeps_os_listdir: "steady R \<Longrightarrow> keeps R (os_listdir p)"
  by (rule keeps_same) (auto simp: os_listdir_def split: option.splits node.splits)

lemma keeps_bind:
  assumes "steady R" and "keeps R m" and "\<And>x. keeps R (k x)"
  shows "keeps R (bind m k)"
  unfolding keeps_def
proof (intro allI impI)
  fix w r w' assume run: "bind m k w = (r, w')"
  obtain r1 w1 where m: "m w = (r1, w1)" by (cases "m w")
  with assms(2) have 1: "R w w1" by (rule keepsD)
  show "R w w'"
  proof (cases r1)
    case (Inl e)
    with run m have "w' = w1" by (simp add: bind_def)
    with 1 show ?thesis by simp
  next
    case (Inr x)
    with run m have "k x w1 = (r, w')" by (simp add: bind_def)
    with assms(3) have "R w1 w'" by (rule keepsD)
    with assms(1) 1 show ?thesis by (rule steady_trans)
  qed
qed

lemma keeps_seq:
  "steady R \<Longrightarrow> keeps R m \<Longrightarrow> keeps R k \<Longrightarrow> keeps R (seq m k)"
  unfolding seq_def by (rule keeps_bind)

lemma keeps_when_fs:
  assumes "steady R" and "keeps R m"
  shows "keeps R (when_fs c m)"
  unfolding keeps_def
proof (intro allI impI)
  fix w r w' assume run: "when_fs c m w = (r, w')"
  show "R w w'"
  proof (cases "c (fs w)")
    case True
    with run have "m w = (r, w')" by (simp add: when_fs_def)
    with assms(2) show ?thesis by (rule keepsD)
  next
    case False
    with run have "w' = w" by (simp add: when_fs_def ret_def)
    with assms(1) show ?thesis by (simp add: steady_same)
  qed
qed

lemma keeps_for_each:
  assumes "steady R" and "\<And>x. x \<in> set xs \<Longrightarrow> keeps R (body x)"
  shows "keeps R (for_each xs body)"
  using assms(2)
proof (induction xs)
  case Nil
  then show ?case using assms(1) by (simp add: keeps_ret)
next
  case (Cons x xs)
  then show ?case using assms(1) by (auto intro!: keeps_seq)
qed

lemma keeps_total: "keeps R m \<Longrightarrow> keeps_p R (total m)"
  by (auto simp: keeps_p_def keeps_def total_def)

lemma keeps_pbind:
  assumes "steady R" and "keeps_p R m" and "\<And>x. keeps_p R (k x)"
  shows "keeps_p R (pbind m k)"
  unfolding keeps_p_def
proof (intro allI impI)
  fix w r w' assume run: "pbind m k w = Some (r, w')"
  then obtain r1 w1 where m: "m w = Some (r1, w1)"
    by (cases "m w") (auto simp: pbind_def)
  with assms(2) have 1: "R w w1" by (rule keeps_pD)
  show "R w w'"
  proof (cases r1)
    case (Inl e)
    with run m have "w' = w1" by (simp add: pbind_def)
    with 1 show ?thesis by simp
  next
    case (Inr x)
    with run m have "k x w1 = Some (r, w')" by (simp add: pbind_def)
    with assms(3) have "R w1 w'" by (rule keeps_pD)
    with assms(1) 1 show ?thesis by (rule steady_trans)
  qed
qed

lemma keeps_pseq:
  "steady R \<Longrightarrow> keeps_p R m \<Longrightarrow> keeps_p R k \<Longrightarrow> keeps_p R (pseq m k)"
  unfolding pseq_def by (rule keeps_pbind)

lemma keeps_walk_for:
  assumes st: "steady R" and body: "\<And>r ds ns. prefix base r \<Longrightarrow> keeps R (body r ds ns)"
  shows "\<forall>s\<in>set stack. prefix base s \<Longrightarrow> keeps_p R (walk_for n stack body)"
proof (induction n arbitrary: stack)
  case 0
  show ?case unfolding keeps_p_def
  proof (intro allI impI)
    fix w r w' assume "walk_for 0 stack body w = Some (r, w')"
    then have "w' = w" by (cases stack) simp_all
    then show "R w w'" using st steady_same by blast
  qed
next
  case (Suc n)
  show ?case unfolding keeps_p_def
  proof (intro allI impI)
    fix w r w' assume run: "walk_for (Suc n) stack body w = Some (r, w')"
    show "R w w'"
    proof (cases stack)
      case Nil
      with run have "w' = w" by simp
      then show ?thesis using st steady_same by blast
    next
      case (Cons t rest)
      from Suc.prems Cons have pt: "prefix base t" and prest: "\<forall>s\<in>set rest. prefix base s" by simp_all
      show ?thesis
      proof (cases "isdir (fs w) t")
        case False
        with run Cons have "walk_for n rest body w = Some (r, w')" by simp
        with Suc.IH [OF prest] show ?thesis by (rule keeps_pD)
      next
        case True
        let ?names = "names_in (fs w) t"
        let ?dirs = "filter (\<lambda>d. isdir (fs w) (t @ [d])) ?names"
        let ?nondirs = "filter (\<lambda>d. \<not> isdir (fs w) (t @ [d])) ?names"
        obtain r1 w1 where b: "body t ?dirs ?nondirs w = (r1, w1)" by (cases "body t ?dirs ?nondirs w")
        with body [OF pt] have 1: "R w w1" by (rule keepsD)
        show ?thesis
        proof (cases r1)
          case (Inl e)
          with run Cons True b have "w' = w1" by (simp add: Let_def)
          with 1 show ?thesis by simp
        next
          case (Inr u)
          with run Cons True b
          have "walk_for n (map (\<lambda>d. t @ [d]) ?dirs @ rest) body w1 = Some (r, w')"
            by (simp add: Let_def)
          moreover have "\<forall>s\<in>set (map (\<lambda>d. t @ [d]) ?dirs @ rest). prefix base s"
            using prest pt by (auto simp: prefix_prefix)
          ultimately have "R w1 w'" using Suc.IH keeps_pD by blast
          with st 1 show ?thesis by (rule steady_trans)
        qed
      qed
    qed
  qed
qed

subsection \<open>The calls, for a frame\<close>

lemma keeps_effect: 
  assumes "\<And>w r w'. m w = (r, w') \<Longrightarrow> effect A B w w'" and "\<And>p. A p \<Longrightarrow> A' p"
  shows "keeps (frame A') m"
  unfolding keeps_def using assms effect_frame frame_mono by blast

lemma frame_os_makedirs: "keeps (frame A) (os_makedirs p)"
  by (rule keeps_effect [where A = "\<lambda>q. False"]) (auto intro: os_makedirs_effect)

lemma frame_os_mkdir: "keeps (frame A) (os_mkdir p)"
  by (rule keeps_effect [where A = "\<lambda>q. False"]) (auto intro: os_mkdir_effect)

lemma frame_open_wb: "A p \<Longrightarrow> keeps (frame A) (open_wb p)"
  by (rule keeps_effect [where A = "\<lambda>q. q = p"]) (auto intro: open_wb_effect)

lemma frame_open_a: "A p \<Longrightarrow> keeps (frame A) (open_a p)"
  by (rule keeps_effect [where A = "\<lambda>q. q = p"]) (auto intro: open_a_effect)

lemma frame_file_write: "A p \<Longrightarrow> keeps (frame A) (file_write p d)"
  by (rule keeps_effect [where A = "\<lambda>q. q = p"]) (auto intro: file_write_effect)

lemma frame_os_remove: "A p \<Longrightarrow> keeps (frame A) (os_remove p)"
  unfolding keeps_def using os_remove_frame frame_mono by blast

lemma map_of_filter_apart:
  "\<not> prefix p q \<Longrightarrow> map_of (filter (\<lambda>(k, n). \<not> prefix p k) f) q = map_of f q"
  by (induction f) auto

lemma frame_shutil_rmtree: "(\<And>q. prefix p q \<Longrightarrow> A q) \<Longrightarrow> keeps (frame A) (shutil_rmtree p)"
  unfolding keeps_def
proof (intro allI impI)
  fix w r w' assume a: "\<And>q. prefix p q \<Longrightarrow> A q" and run: "shutil_rmtree p w = (r, w')"
  show "frame A w w'"
  proof (cases "lookup (fs w) p = Some D")
    case False
    with run have "w' = w" by (auto simp: shutil_rmtree_def split: option.splits node.splits)
    then show ?thesis by (simp add: frame_refl)
  next
    case True
    with run have w': "fs w' = filter (\<lambda>(q, n). \<not> prefix p q) (fs w)"
      by (auto simp: shutil_rmtree_def)
    have "lookup (fs w') q = lookup (fs w) q" if "\<not> prefix p q" for q
      unfolding w' lookup_def using that by (simp add: map_of_filter_apart)
    with a show ?thesis unfolding frame_def by blast
  qed
qed

lemma map_of_move_entry:
  assumes "\<not> prefix src q" and "\<not> prefix dst q"
  shows "map_of (map (move_entry src dst) f) q = map_of f q"
proof (induction f)
  case Nil
  then show ?case by simp
next
  case (Cons e f)
  obtain k v where e: "e = (k, v)" by (cases e)
  show ?case
  proof (cases "prefix src k")
    case True
    with assms have "k \<noteq> q" "dst @ drop (length src) k \<noteq> q" by auto
    with True e Cons show ?thesis by (simp add: move_entry_def)
  next
    case False
    with e Cons show ?thesis by (simp add: move_entry_def)
  qed
qed

lemma frame_os_rename:
  assumes "\<And>q. prefix src q \<or> prefix dst q \<Longrightarrow> A q"
  shows "keeps (frame A) (os_rename src dst)"
  unfolding keeps_def
proof (intro allI impI)
  fix w r w' assume run: "os_rename src dst w = (r, w')"
  have moved: "frame A w (w\<lparr>fs := map (move_entry src dst) (AList.delete dst (fs w))\<rparr>)"
    unfolding frame_def
  proof (intro allI impI)
    fix q assume "\<not> A q"
    with assms have n: "\<not> prefix src q" "\<not> prefix dst q" by blast+
    then have "q \<noteq> dst" by auto
    with n have "lookup (fs (w\<lparr>fs := map (move_entry src dst) (AList.delete dst (fs w))\<rparr>)) q = lookup (fs w) q"
      by (simp add: lookup_def map_of_move_entry delete_conv')
    then show "lookup (fs (w\<lparr>fs := map (move_entry src dst) (AList.delete dst (fs w))\<rparr>)) q = lookup (fs w) q
       \<or> (lookup (fs w) q = None \<and> lookup (fs (w\<lparr>fs := map (move_entry src dst) (AList.delete dst (fs w))\<rparr>)) q = Some D)"
      by simp
  qed
  from run have "w' = w \<or> w' = w\<lparr>fs := map (move_entry src dst) (AList.delete dst (fs w))\<rparr>"
    by (auto simp: os_rename_def split: option.splits if_splits node.splits)
  with moved show "frame A w w'" by (auto simp: frame_refl)
qed

lemma frame_shutil_copy2:
  "A dst \<Longrightarrow> A (join dst (basename src)) \<Longrightarrow> keeps (frame A) (shutil_copy2 src dst)"
  unfolding keeps_def
proof (intro allI impI)
  fix w r w' assume a: "A dst" "A (join dst (basename src))" and run: "shutil_copy2 src dst w = (r, w')"
  from run have "effect (\<lambda>q. q = (if isdir (fs w) dst then join dst (basename src) else dst)) (\<lambda>q. False) w w'"
    by (rule shutil_copy2_effect)
  then have "frame (\<lambda>q. q = (if isdir (fs w) dst then join dst (basename src) else dst)) w w'"
    by (rule effect_frame)
  then show "frame A w w'"
  proof (rule frame_mono)
    fix q assume "q = (if isdir (fs w) dst then join dst (basename src) else dst)"
    with a show "A q" by (simp split: if_splits)
  qed
qed

lemma frame_extract_member:
  assumes "A (dest @ fst m)"
  shows "keeps (frame A) (extract_member dest m)"
  unfolding extract_member_def Let_def
proof (rule keeps_seq [OF steady_frame])
  show "keeps (frame A) (when_fs (\<lambda>f. \<not> path_exists f (dirname (dest @ fst m))) (os_makedirs (dirname (dest @ fst m))))"
    by (intro keeps_when_fs steady_frame frame_os_makedirs)
  show "keeps (frame A) (case snd m of
             D \<Rightarrow> when_fs (\<lambda>f. \<not> isdir f (dest @ fst m)) (os_mkdir (dest @ fst m))
           | F c \<Rightarrow> seq (open_wb (dest @ fst m)) (file_write (dest @ fst m) c))"
    using assms
    by (cases "snd m")
       (auto intro!: keeps_when_fs keeps_seq steady_frame frame_os_mkdir frame_open_wb frame_file_write)
qed

subsection \<open>The calls, for a directory that stays\<close>

lemma kept_effect:
  assumes "\<And>w r w'. m w = (r, w') \<Longrightarrow> effect A B w w'"
  shows "keeps (dir_kept p) m"
  unfolding keeps_def dir_kept_def using assms effect_isdir by blast

lemma kept_os_makedirs: "keeps (dir_kept p) (os_makedirs q)"
  by (rule kept_effect) (rule os_makedirs_effect)

lemma kept_os_mkdir: "keeps (dir_kept p) (os_mkdir q)"
  by (rule kept_effect) (rule os_mkdir_effect)

lemma kept_open_wb: "keeps (dir_kept p) (open_wb q)"
  by (rule kept_effect) (rule open_wb_effect)

lemma kept_open_a: "keeps (dir_kept p) (open_a q)"
  by (rule kept_effect) (rule open_a_effect)

lemma kept_file_write: "keeps (dir_kept p) (file_write q d)"
  by (rule kept_effect) (rule file_write_effect)

lemma kept_os_remove: "keeps (dir_kept p) (os_remove q)"
  unfolding keeps_def dir_kept_def using os_remove_isdir by blast

lemma kept_extract_member: "keeps (dir_kept p) (extract_member dest m)"
  unfolding extract_member_def Let_def
proof (rule keeps_seq [OF steady_dir_kept])
  show "keeps (dir_kept p) (when_fs (\<lambda>f. \<not> path_exists f (dirname (dest @ fst m))) (os_makedirs (dirname (dest @ fst m))))"
    by (intro keeps_when_fs steady_dir_kept kept_os_makedirs)
  show "keeps (dir_kept p) (case snd m of
             D \<Rightarrow> when_fs (\<lambda>f. \<not> isdir f (dest @ fst m)) (os_mkdir (dest @ fst m))
           | F c \<Rightarrow> seq (open_wb (dest @ fst m)) (file_write (dest @ fst m) c))"
    by (cases "snd m")
       (auto intro!: keeps_when_fs keeps_seq steady_dir_kept kept_os_mkdir kept_open_wb kept_file_write)
qed

lemma kept_os_rename:
  assumes "\<not> prefix src p" and "\<not> prefix dst p"
  shows "keeps (dir_kept p) (os_rename src dst)"
proof -
  have "keeps (frame (\<lambda>q. prefix src q \<or> prefix dst q)) (os_rename src dst)"
    by (rule frame_os_rename)
  then show ?thesis
    unfolding keeps_def dir_kept_def using assms frame_isdir by blast
qed

section \<open>update_server ends and writes only what it installs\<close>

subsection \<open>Relations kept by the copy of one library\<close>

lemma keeps_if: "keeps R a \<Longrightarrow> keeps R b \<Longrightarrow> keeps R (if c then a else b)"
  by simp

lemma keeps_os_makedirs:
  assumes st: "steady R" and mk: "\<And>q. keeps R (os_mkdir q)"
  shows "keeps R (os_makedirs p)"
proof -
  have "os_makedirs p w = (res, w') \<Longrightarrow> R w w'" for w res w'
  proof (induction p w arbitrary: res w' rule: os_makedirs.induct)
    case (1 p w)
    show ?case
    proof (cases "p \<noteq> [] \<and> \<not> path_exists (fs w) (butlast p)")
      case False
      with "1.prems" have "os_mkdir p w = (res, w')"
        by (subst (asm) os_makedirs.simps) simp
      with mk show ?thesis by (rule keepsD)
    next
      case True
      obtain r1 w1 where up: "os_makedirs (butlast p) w = (r1, w1)" by (cases "os_makedirs (butlast p) w")
      from "1.IH" [OF True up] have a: "R w w1" .
      have eq: "os_makedirs p w =
          (case (r1, w1) of
             (Inl (FileExistsError q), w') \<Rightarrow> os_mkdir p w'
           | (Inl e, w') \<Rightarrow> (Inl e, w')
           | (Inr u, w') \<Rightarrow> os_mkdir p w')"
        using True up by (subst os_makedirs.simps) simp
      show ?thesis
      proof (cases r1)
        case (Inr u)
        with eq "1.prems" have "os_mkdir p w1 = (res, w')" by simp
        with mk have "R w1 w'" by (rule keepsD)
        with st a show ?thesis by (rule steady_trans)
      next
        case (Inl e)
        show ?thesis
        proof (cases "\<exists>q. e = FileExistsError q")
          case True
          with Inl eq "1.prems" have "os_mkdir p w1 = (res, w')" by auto
          with mk have "R w1 w'" by (rule keepsD)
          with st a show ?thesis by (rule steady_trans)
        next
          case False
          with Inl eq "1.prems" have "w' = w1" by (cases e) simp_all
          with a show ?thesis by simp
        qed
      qed
    qed
  qed
  then show ?thesis by (simp add: keeps_def)
qed

lemma keeps_shutil_copy2:
  assumes st: "steady R" and o: "\<And>p. keeps R (open_wb p)" and wr: "\<And>p d. keeps R (file_write p d)"
  shows "keeps R (shutil_copy2 src dst)"
  unfolding keeps_def
proof (intro allI impI)
  fix w r w' assume run: "shutil_copy2 src dst w = (r, w')"
  let ?d = "if isdir (fs w) dst then join dst (basename src) else dst"
  show "R w w'"
  proof (cases "src = ?d \<and> path_exists (fs w) src")
    case True
    with run have "w' = w" by (simp add: shutil_copy2_def Let_def)
    with st show ?thesis by (simp add: steady_same)
  next
    case False
    with run have "bind (read_file src) (\<lambda>data. seq (open_wb ?d) (file_write ?d data)) w = (r, w')"
      by (simp add: shutil_copy2_def Let_def)
    moreover have "keeps R (bind (read_file src) (\<lambda>data. seq (open_wb ?d) (file_write ?d data)))"
      by (intro keeps_bind keeps_seq keeps_read_file st o wr)
    ultimately show ?thesis by (rule keepsD [rotated])
  qed
qed

lemma keeps_copy_library:
  assumes st: "steady R" and mk: "\<And>q. keeps R (os_mkdir q)"
    and o: "\<And>p. keeps R (open_wb p)" and wr: "\<And>p d. keeps R (file_write p d)"
  shows "keeps R (copy_library bin dest r n)"
  unfolding copy_library_def Let_def
  by (intro keeps_if keeps_ret keeps_seq keeps_when_fs keeps_os_makedirs keeps_shutil_copy2 st mk o wr)

text \<open>No call of the copy lists a path twice.\<close>

lemma steady_keys: "steady (\<lambda>w w'. distinct (map fst (fs w)) \<longrightarrow> distinct (map fst (fs w')))"
  by (simp add: steady_def)

lemma keys_os_mkdir:
  "keeps (\<lambda>w w'. distinct (map fst (fs w)) \<longrightarrow> distinct (map fst (fs w'))) (os_mkdir p)"
  by (auto simp: keeps_def os_mkdir_def put_def distinct_update split: if_splits option.splits)

lemma keys_open_wb:
  "keeps (\<lambda>w w'. distinct (map fst (fs w)) \<longrightarrow> distinct (map fst (fs w'))) (open_wb p)"
  by (auto simp: keeps_def open_wb_def put_def distinct_update split: option.splits node.splits)

lemma keys_file_write:
  "keeps (\<lambda>w w'. distinct (map fst (fs w)) \<longrightarrow> distinct (map fst (fs w'))) (file_write p d)"
  by (auto simp: keeps_def file_write_def put_def distinct_update split: option.splits node.splits)

lemma keys_copy_library:
  "keeps (\<lambda>w w'. distinct (map fst (fs w)) \<longrightarrow> distinct (map fst (fs w'))) (copy_library bin dest r n)"
  by (intro keeps_copy_library steady_keys keys_os_mkdir keys_open_wb keys_file_write)

subsection \<open>The copy of one library leaves the staged folder alone\<close>

lemma copy_library_kept:
  assumes wf: "well_formed (fs w0)" and apart: "mirrors_apart bin dest (fs w0)"
    and kept: "source_kept bin w0 v"
    and pr: "prefix bin r" and ex: "path_exists (fs w0) (r @ [n])" and proper: "proper_name n"
    and nod: "\<not> isdir (fs w0) (r @ [n])"
    and run: "copy_library bin dest r n v = (res, v1)"
  shows "source_kept bin w0 v1 \<and> frame (library_mirror bin dest (fs w0)) v v1"
proof (cases "is_library n")
  case False
  with run have "v1 = v" by (simp add: copy_library_def ret_def)
  with kept show ?thesis by (simp add: frame_refl)
next
  case True
  let ?df = "dest @ drop (length bin) r @ [n]"
  from proper have pn: "path_of n = [n]" by (rule path_of_proper)
  from copy_library_effect [OF run pr] True pn
  have eff: "effect (\<lambda>q. q = ?df \<or> q = ?df @ [n]) (\<lambda>q. strict_prefix q ?df) v v1"
    by simp
  from ex obtain val where ent: "(r @ [n], val) \<in> set (fs w0)"
    by (auto simp: path_exists_def dest: lookup_in)
  with wf have "lookup (fs w0) (r @ [n]) = Some val" by (rule wf_lookup)
  with nod have val: "val \<noteq> D" by (auto simp: isdir_def)
  from pr have prn: "prefix bin (r @ [n])" by (simp add: prefix_prefix)
  from pr have dr: "drop (length bin) (r @ [n]) = drop (length bin) r @ [n]"
    by (simp add: prefix_length_le)
  have lb: "is_library (basename (r @ [n]))" using True by (simp add: basename_def)
  with apart ent prn have "\<not> prefix bin (dest @ drop (length bin) (r @ [n])) \<and>
        \<not> prefix (dest @ drop (length bin) (r @ [n])) bin"
    unfolding mirrors_apart_def by (metis fst_conv)
  then have ap: "\<not> prefix bin ?df" "\<not> prefix ?df bin" unfolding dr by blast+
  have k: "source_kept bin w0 v1"
    unfolding source_kept_def
  proof (intro allI impI)
    fix p assume p: "prefix bin p"
    have "\<not> strict_prefix p ?df"
    proof
      assume "strict_prefix p ?df"
      with p have "prefix bin ?df" by (auto simp: strict_prefix_def intro: prefix_order.trans)
      with ap show False by simp
    qed
    moreover have "p \<noteq> ?df" using p ap by auto
    moreover have "p \<noteq> ?df @ [n]"
    proof
      assume "p = ?df @ [n]"
      with p have "prefix bin (?df @ [n])" by simp
      then have "bin = ?df @ [n] \<or> prefix bin ?df" by (rule prefix_snoc_cases)
      moreover have "prefix ?df bin" if "bin = ?df @ [n]" using that by (metis prefixI)
      ultimately show False using ap by blast
    qed
    ultimately have "lookup (fs v1) p = lookup (fs v) p"
      using effectD [OF eff, of p] by auto
    with kept p show "lookup (fs v1) p = lookup (fs w0) p" by (simp add: source_kept_def)
  qed
  have "r @ [n] \<noteq> bin"
  proof
    assume "r @ [n] = bin"
    with dr show False by simp
  qed
  with prn have sp: "strict_prefix bin (r @ [n])" by (simp add: strict_prefix_def)
  from eff have "frame (\<lambda>q. q = ?df \<or> q = ?df @ [n]) v v1" by (rule effect_frame)
  then have "frame (library_mirror bin dest (fs w0)) v v1"
  proof (rule frame_mono)
    fix q assume "q = ?df \<or> q = ?df @ [n]"
    then have "q = dest @ drop (length bin) (fst (r @ [n], val))
         \<or> q = dest @ drop (length bin) (fst (r @ [n], val)) @ [basename (fst (r @ [n], val))]"
      unfolding fst_conv dr by (simp add: basename_def)
    moreover have "strict_prefix bin (fst (r @ [n], val))" using sp by simp
    moreover have "snd (r @ [n], val) \<noteq> D" using val by simp
    moreover have "is_library (basename (fst (r @ [n], val)))" using lb by simp
    ultimately show "library_mirror bin dest (fs w0) q"
      unfolding library_mirror_def using ent by blast
  qed
  with k show ?thesis ..
qed

lemma copy_loop_kept:
  assumes wf: "well_formed (fs w0)" and apart: "mirrors_apart bin dest (fs w0)"
    and pr: "prefix bin r"
  shows "source_kept bin w0 v \<Longrightarrow>
         \<forall>n\<in>set ns. proper_name n \<and> path_exists (fs w0) (r @ [n]) \<and> \<not> isdir (fs w0) (r @ [n]) \<Longrightarrow>
         for_each ns (copy_library bin dest r) v = (res, v1) \<Longrightarrow>
         source_kept bin w0 v1 \<and> frame (library_mirror bin dest (fs w0)) v v1"
proof (induction ns arbitrary: v)
  case Nil
  then show ?case by (simp add: ret_def frame_refl)
next
  case (Cons n ns)
  obtain r2 v2 where st: "copy_library bin dest r n v = (r2, v2)" by (cases "copy_library bin dest r n v")
  from Cons.prems(2) have n: "proper_name n" "path_exists (fs w0) (r @ [n])" "\<not> isdir (fs w0) (r @ [n])"
    by auto
  note s = copy_library_kept [OF wf apart Cons.prems(1) pr n(2) n(1) n(3) st]
  show ?case
  proof (cases r2)
    case (Inl e)
    with st Cons.prems(3) have "v1 = v2" by (simp add: seq_def bind_def)
    with s show ?thesis by simp
  next
    case (Inr u)
    with st Cons.prems(3) have rest: "for_each ns (copy_library bin dest r) v2 = (res, v1)"
      by (simp add: seq_def bind_def)
    from Cons.prems(2) have "\<forall>n\<in>set ns. proper_name n \<and> path_exists (fs w0) (r @ [n]) \<and> \<not> isdir (fs w0) (r @ [n])"
      by simp
    from s Cons.IH [OF _ this rest] have "source_kept bin w0 v1"
      and "frame (library_mirror bin dest (fs w0)) v2 v1" by auto
    with s show ?thesis using frame_trans by blast
  qed
qed

subsection \<open>The walk of update_server ends\<close>

lemma library_walk_total:
  assumes wf: "well_formed (fs w0)" and apart: "mirrors_apart bin dest (fs w0)"
  shows "source_kept bin w0 w \<Longrightarrow> distinct (map fst (fs w)) \<Longrightarrow>
         \<forall>s\<in>set stack. prefix bin s \<and> isdir (fs w0) s \<Longrightarrow> antichain stack \<Longrightarrow>
         card (dirs_below (fs w0) stack) < n \<Longrightarrow>
         \<exists>res w'. walk_for n stack (\<lambda>root dirs files. for_each files (copy_library bin dest root)) w
                     = Some (res, w')
                 \<and> frame (library_mirror bin dest (fs w0)) w w'"
proof (induction n arbitrary: stack w)
  case 0
  then show ?case by simp
next
  case (Suc n)
  let ?body = "\<lambda>root dirs files. for_each files (copy_library bin dest root)"
  let ?f = "fs w0"
  let ?M = "library_mirror bin dest (fs w0)"
  show ?case
  proof (cases stack)
    case Nil
    then show ?thesis by (simp add: frame_refl)
  next
    case (Cons r rest)
    let ?names = "names_in (fs w) r"
    let ?dirs = "filter (\<lambda>d. isdir (fs w) (r @ [d])) ?names"
    let ?nondirs = "filter (\<lambda>d. \<not> isdir (fs w) (r @ [d])) ?names"
    let ?stack' = "map (\<lambda>d. r @ [d]) ?dirs @ rest"
    from Suc.prems(3) Cons have pr: "prefix bin r" and rd0: "isdir ?f r" by simp_all
    from Suc.prems(1) pr rd0 have rdir: "isdir (fs w) r" by (simp add: source_kept_def isdir_def)
    have same: "lookup (fs w) (r @ [m]) = lookup ?f (r @ [m])" for m
      using Suc.prems(1) pr by (simp add: source_kept_def prefix_prefix)
    have dnames: "distinct ?names" using Suc.prems(2) by (rule names_in_distinct)
    have names: "\<forall>m\<in>set ?nondirs. proper_name m \<and> path_exists ?f (r @ [m]) \<and> \<not> isdir ?f (r @ [m])"
    proof
      fix m assume m: "m \<in> set ?nondirs"
      then obtain val where "(r @ [m], val) \<in> set (fs w)" by (auto simp: names_in_iff)
      then have "lookup (fs w) (r @ [m]) \<noteq> None" by (rule in_set_lookup) simp
      with same have ex: "path_exists ?f (r @ [m])" by (simp add: path_exists_def)
      then obtain val' where "(r @ [m], val') \<in> set ?f"
        by (auto simp: path_exists_def dest: lookup_in)
      with wf have "proper_name m" by (fastforce simp: well_formed_def)
      moreover from m same have "\<not> isdir ?f (r @ [m])" by (simp add: isdir_def)
      ultimately show "proper_name m \<and> path_exists ?f (r @ [m]) \<and> \<not> isdir ?f (r @ [m])"
        using ex by simp
    qed
    obtain r1 w1 where b: "for_each ?nondirs (copy_library bin dest r) w = (r1, w1)"
      by (cases "for_each ?nondirs (copy_library bin dest r) w")
    note loop = copy_loop_kept [OF wf apart pr Suc.prems(1) names b]
    from loop have k1: "source_kept bin w0 w1" and f1: "frame ?M w w1" by auto
    show ?thesis
    proof (cases r1)
      case (Inl e)
      with Cons rdir b have "walk_for (Suc n) stack ?body w = Some (Inl e, w1)"
        by (simp add: Let_def)
      with f1 show ?thesis by blast
    next
      case (Inr u)
      with Cons rdir b have step: "walk_for (Suc n) stack ?body w = walk_for n ?stack' ?body w1"
        by (simp add: Let_def)
      have "keeps (\<lambda>w w'. distinct (map fst (fs w)) \<longrightarrow> distinct (map fst (fs w')))
              (for_each ?nondirs (copy_library bin dest r))"
        by (intro keeps_for_each steady_keys keys_copy_library)
      from keepsD [OF this b] Suc.prems(2) have d1: "distinct (map fst (fs w1))" by simp
      have st: "\<forall>s\<in>set ?stack'. prefix bin s \<and> isdir ?f s"
      proof
        fix s assume "s \<in> set ?stack'"
        then consider d where "s = r @ [d]" "isdir (fs w) (r @ [d])" | "s \<in> set rest" by auto
        then show "prefix bin s \<and> isdir ?f s"
        proof cases
          case 1
          with same [of d] pr show ?thesis by (simp add: isdir_def prefix_prefix)
        next
          case 2
          with Suc.prems(3) Cons show ?thesis by simp
        qed
      qed
      have anti: "antichain ?stack'"
        using Suc.prems(4) Cons dnames by (intro antichain_step) auto
      have sub: "dirs_below ?f ?stack' \<subseteq> dirs_below ?f (r # rest) - {r}"
      proof
        fix q assume q: "q \<in> dirs_below ?f ?stack'"
        then obtain s where s: "s \<in> set ?stack'" "prefix s q" "isdir ?f q"
          by (auto simp: dirs_below_def)
        have "q \<noteq> r"
        proof
          assume "q = r"
          with s(1,2) Suc.prems(4) Cons show False by auto
        qed
        moreover from s have "\<exists>t\<in>set (r # rest). prefix t q"
          using append_prefixD by fastforce
        ultimately show "q \<in> dirs_below ?f (r # rest) - {r}"
          using s(3) by (simp add: dirs_below_def)
      qed
      have "r \<in> dirs_below ?f (r # rest)" using rd0 by (simp add: dirs_below_def)
      with sub have "dirs_below ?f ?stack' \<subset> dirs_below ?f (r # rest)" by blast
      then have "card (dirs_below ?f ?stack') < card (dirs_below ?f (r # rest))"
        using finite_dirs_below by (intro psubset_card_mono)
      with Suc.prems(5) Cons have fuel: "card (dirs_below ?f ?stack') < n" by simp
      from Suc.IH [OF k1 d1 st anti fuel] obtain res w' where
        "walk_for n ?stack' ?body w1 = Some (res, w')" and "frame ?M w1 w'" by blast
      with step f1 show ?thesis using frame_trans by metis
    qed
  qed
qed

lemma update_server_total:
  assumes wf: "well_formed (fs w)"
    and apart: "mirrors_apart (join (join ui ''server'') (SERVER_BINARIES_LOCATION P))
                              (join sf (SERVER_BINARIES_LOCATION P)) (fs w)"
    and fuel: "length (fs w) + 1 < n"
  shows "\<exists>res w'. update_server n P ui sf w = Some (res, w')
           \<and> frame (\<lambda>p. p = join sf (EXEC_FILE_NAME P)
                        \<or> library_mirror (join (join ui ''server'') (SERVER_BINARIES_LOCATION P))
                                         (join sf (SERVER_BINARIES_LOCATION P)) (fs w) p) w w'"
proof -
  let ?bin = "join (join ui ''server'') (SERVER_BINARIES_LOCATION P)"
  let ?dest = "join sf (SERVER_BINARIES_LOCATION P)"
  let ?d = "join sf (EXEC_FILE_NAME P)"
  let ?s = "join (join ui ''server'') (EXEC_FILE_NAME P)"
  let ?body = "\<lambda>root dirs files. for_each files (copy_library ?bin ?dest root)"
  let ?M = "library_mirror ?bin ?dest (fs w)"
  let ?tail = "seq (when_fs (\<lambda>f. path_exists f ?d) (os_remove ?d)) (shutil_copy2 ?s ?d)"
  have walk: "\<exists>r1 w1. walk_for n [?bin] ?body w = Some (r1, w1) \<and> frame ?M w w1"
  proof (cases "isdir (fs w) ?bin")
    case True
    have "card (dirs_below (fs w) [?bin]) \<le> length (fs w) + 1" by (rule card_dirs_below)
    with fuel have c: "card (dirs_below (fs w) [?bin]) < n" by simp
    from wf have d: "distinct (map fst (fs w))" by (simp add: well_formed_def)
    from True have s: "\<forall>s\<in>set [?bin]. prefix ?bin s \<and> isdir (fs w) s" by simp
    have a: "antichain [?bin]" by simp
    from library_walk_total [OF wf apart source_kept_refl d s a c] show ?thesis by blast
  next
    case False
    from fuel obtain m where "n = Suc m" by (cases n) auto
    with False have "walk_for n [?bin] ?body w = Some (Inr (), w)" by simp
    then show ?thesis by (simp add: frame_refl)
  qed
  then obtain r1 w1 where w1: "walk_for n [?bin] ?body w = Some (r1, w1)" and f1: "frame ?M w w1"
    by blast
  have run: "update_server n P ui sf w = pseq (walk_for n [?bin] ?body) (total ?tail) w"
    by (simp add: update_server_def Let_def)
  show ?thesis
  proof (cases r1)
    case (Inl e)
    with w1 run have a: "update_server n P ui sf w = Some (Inl e, w1)"
      by (simp add: pseq_def pbind_def)
    from f1 have "frame (\<lambda>p. p = ?d \<or> ?M p) w w1" by (rule frame_mono) simp
    with a show ?thesis by (intro exI conjI)
  next
    case (Inr u)
    obtain res w' where t: "?tail w1 = (res, w')" by (cases "?tail w1")
    with Inr w1 run have a: "update_server n P ui sf w = Some (res, w')"
      by (simp add: pseq_def pbind_def total_def)
    from replace_executable [OF t, of "[]"] have "frame (\<lambda>q. q = ?d) w1 w'" by (rule conjunct1)
    then have b: "frame (\<lambda>p. p = ?d \<or> ?M p) w1 w'" by (rule frame_mono) simp
    from f1 have "frame (\<lambda>p. p = ?d \<or> ?M p) w w1" by (rule frame_mono) simp
    from this b have "frame (\<lambda>p. p = ?d \<or> ?M p) w w'" by (rule frame_trans)
    with a show ?thesis by (intro exI conjI)
  qed
qed

subsection \<open>Where the older files are in place, nothing raises\<close>

lemma effect_file:
  assumes "effect A B w w'" and "file_at (fs w) p \<noteq> None"
  shows "file_at (fs w') p \<noteq> None"
  using effectD [OF assms(1), of p] assms(2)
  by (auto simp: file_at_def split: option.splits node.splits)

lemma copy_library_ok:
  assumes pr: "prefix bin r" and proper: "proper_name n"
    and src: "file_at (fs v) (r @ [n]) \<noteq> None"
    and place: "is_library n \<longrightarrow> file_at (fs v) (dest @ drop (length bin) r @ [n]) \<noteq> None
                                \<and> isdir (fs v) (dest @ drop (length bin) r)"
    and ne: "is_library n \<longrightarrow> r @ [n] \<noteq> dest @ drop (length bin) r @ [n]"
  shows "\<exists>v1. copy_library bin dest r n v = (Inr (), v1)"
proof (cases "is_library n")
  case False
  then show ?thesis by (simp add: copy_library_def ret_def)
next
  case True
  let ?df = "dest @ drop (length bin) r @ [n]"
  from proper have pn: "path_of n = [n]" by (rule path_of_proper)
  have jn: "join r n = r @ [n]" using proper by (rule join_proper)
  have df: "dest @ relpath (r @ [n]) bin = ?df"
    using copy_library_target(1) [OF pr True, of dest] pn jn by simp
  from src obtain c where c: "lookup (fs v) (r @ [n]) = Some (F c)"
    by (auto simp: file_at_def split: option.splits node.splits)
  from place True obtain old where old: "lookup (fs v) ?df = Some (F old)"
    by (auto simp: file_at_def split: option.splits node.splits)
  from place True have par: "lookup (fs v) (dest @ drop (length bin) r) = Some D"
    by (simp add: isdir_def)
  have dn: "dirname ?df = dest @ drop (length bin) r"
    by (simp add: dirname_def butlast_append)
  have skip: "when_fs (\<lambda>f. \<not> path_exists f (dirname ?df)) (os_makedirs (dirname ?df)) v = (Inr (), v)"
    unfolding dn using par by (simp add: when_fs_def path_exists_def)
  have nd: "\<not> isdir (fs v) ?df" using old by (simp add: isdir_def)
  have copy: "\<exists>v1. shutil_copy2 (r @ [n]) ?df v = (Inr (), v1)"
    using nd ne True c old
    by (simp add: shutil_copy2_def Let_def bind_def seq_def read_file_def open_wb_def put_def
        file_write_def lookup_update)
  from copy obtain v1 where "shutil_copy2 (r @ [n]) ?df v = (Inr (), v1)" ..
  with True skip have "copy_library bin dest r n v = (Inr (), v1)"
    by (simp add: copy_library_def Let_def jn df seq_def bind_def)
  then show ?thesis ..
qed

lemma copy_loop_ok:
  assumes wf: "well_formed (fs w0)" and apart: "mirrors_apart bin dest (fs w0)"
    and pr: "prefix bin r"
  shows "source_kept bin w0 v \<Longrightarrow> libraries_placed bin dest (fs w0) (fs v) \<Longrightarrow>
         \<forall>n\<in>set ns. proper_name n \<and> path_exists (fs w0) (r @ [n]) \<and> \<not> isdir (fs w0) (r @ [n]) \<Longrightarrow>
         for_each ns (copy_library bin dest r) v = (res, v1) \<Longrightarrow>
         res = Inr () \<and> source_kept bin w0 v1 \<and> libraries_placed bin dest (fs w0) (fs v1)"
proof (induction ns arbitrary: v)
  case Nil
  then show ?case by (simp add: ret_def)
next
  case (Cons n ns)
  from Cons.prems(3) have n: "proper_name n" "path_exists (fs w0) (r @ [n])" "\<not> isdir (fs w0) (r @ [n])"
    by auto
  let ?df = "dest @ drop (length bin) r @ [n]"
  from n(2) obtain val where ent: "(r @ [n], val) \<in> set (fs w0)"
    by (auto simp: path_exists_def dest: lookup_in)
  with wf have lk: "lookup (fs w0) (r @ [n]) = Some val" by (rule wf_lookup)
  with n(3) have val: "val \<noteq> D" by (auto simp: isdir_def)
  from pr have prn: "prefix bin (r @ [n])" by (simp add: prefix_prefix)
  from pr have dr: "drop (length bin) (r @ [n]) = drop (length bin) r @ [n]"
    by (simp add: prefix_length_le)
  have "r @ [n] \<noteq> bin"
  proof
    assume "r @ [n] = bin"
    with dr show False by simp
  qed
  with prn have sp: "strict_prefix bin (r @ [n])" by (simp add: strict_prefix_def)
  from Cons.prems(1) prn lk have "lookup (fs v) (r @ [n]) = Some val" by (simp add: source_kept_def)
  with val have src: "file_at (fs v) (r @ [n]) \<noteq> None"
    by (cases val) (simp_all add: file_at_def)
  have place: "is_library n \<longrightarrow> file_at (fs v) ?df \<noteq> None \<and> isdir (fs v) (dest @ drop (length bin) r)"
  proof
    assume lib: "is_library n"
    then have "is_library (basename (fst (r @ [n], val)))" by (simp add: basename_def)
    moreover have "strict_prefix bin (fst (r @ [n], val))" using sp by simp
    moreover have "snd (r @ [n], val) \<noteq> D" using val by simp
    ultimately have "file_at (fs v) (dest @ drop (length bin) (fst (r @ [n], val))) \<noteq> None
        \<and> isdir (fs v) (butlast (dest @ drop (length bin) (fst (r @ [n], val))))"
      using Cons.prems(2) ent unfolding libraries_placed_def by blast
    then show "file_at (fs v) ?df \<noteq> None \<and> isdir (fs v) (dest @ drop (length bin) r)"
      unfolding fst_conv dr by (simp add: butlast_append)
  qed
  have ne: "is_library n \<longrightarrow> r @ [n] \<noteq> ?df"
  proof
    assume "is_library n"
    then have "is_library (basename (r @ [n]))" by (simp add: basename_def)
    with apart ent prn have "\<not> prefix bin (dest @ drop (length bin) (r @ [n]))"
      unfolding mirrors_apart_def by (metis fst_conv)
    then have np: "\<not> prefix bin ?df" unfolding dr .
    show "r @ [n] \<noteq> ?df"
    proof
      assume "r @ [n] = ?df"
      with prn have "prefix bin ?df" by simp
      with np show False ..
    qed
  qed
  from copy_library_ok [OF pr n(1) src place ne] obtain v2 where
    st: "copy_library bin dest r n v = (Inr (), v2)" ..
  from copy_library_kept [OF wf apart Cons.prems(1) pr n(2) n(1) n(3) st]
  have k2: "source_kept bin w0 v2" by simp
  from copy_library_effect [OF st pr]
  have eff: "effect (\<lambda>q. is_library n \<and> (q = dest @ drop (length bin) r @ path_of n
                                      \<or> q = dest @ drop (length bin) r @ path_of n @ [last (path_of n)]))
                (\<lambda>q. is_library n \<and> strict_prefix q (dest @ drop (length bin) r @ path_of n)) v v2" .
  have p2: "libraries_placed bin dest (fs w0) (fs v2)"
    unfolding libraries_placed_def
  proof (intro ballI impI)
    fix e assume "e \<in> set (fs w0)"
      and "strict_prefix bin (fst e) \<and> snd e \<noteq> D \<and> is_library (basename (fst e))"
    with Cons.prems(2) have "file_at (fs v) (dest @ drop (length bin) (fst e)) \<noteq> None"
      and "isdir (fs v) (butlast (dest @ drop (length bin) (fst e)))"
      unfolding libraries_placed_def by blast+
    with eff show "file_at (fs v2) (dest @ drop (length bin) (fst e)) \<noteq> None
        \<and> isdir (fs v2) (butlast (dest @ drop (length bin) (fst e)))"
      using effect_file effect_isdir by blast
  qed
  from st Cons.prems(4) have rest: "for_each ns (copy_library bin dest r) v2 = (res, v1)"
    by (simp add: seq_def bind_def)
  from Cons.prems(3) have "\<forall>n\<in>set ns. proper_name n \<and> path_exists (fs w0) (r @ [n]) \<and> \<not> isdir (fs w0) (r @ [n])"
    by simp
  from Cons.IH [OF k2 p2 this rest] show ?case .
qed

lemma library_walk_ok:
  assumes wf: "well_formed (fs w0)" and apart: "mirrors_apart bin dest (fs w0)"
  shows "source_kept bin w0 w \<Longrightarrow> libraries_placed bin dest (fs w0) (fs w) \<Longrightarrow>
         \<forall>s\<in>set stack. prefix bin s \<Longrightarrow>
         walk_for n stack (\<lambda>root dirs files. for_each files (copy_library bin dest root)) w = Some (res, w') \<Longrightarrow>
         res = Inr ()"
proof (induction n arbitrary: stack w)
  case 0
  then show ?case by (cases stack) auto
next
  case (Suc n)
  let ?body = "\<lambda>root dirs files. for_each files (copy_library bin dest root)"
  show ?case
  proof (cases stack)
    case Nil
    with Suc.prems show ?thesis by auto
  next
    case (Cons r rest)
    from Suc.prems(3) Cons have pr: "prefix bin r" by simp
    show ?thesis
    proof (cases "isdir (fs w) r")
      case False
      with Suc.prems(4) Cons have run: "walk_for n rest ?body w = Some (res, w')" by simp
      from Suc.prems(3) Cons have "\<forall>s\<in>set rest. prefix bin s" by simp
      from Suc.IH [OF Suc.prems(1) Suc.prems(2) this run] show ?thesis .
    next
      case True
      let ?names = "names_in (fs w) r"
      let ?dirs = "filter (\<lambda>d. isdir (fs w) (r @ [d])) ?names"
      let ?nondirs = "filter (\<lambda>d. \<not> isdir (fs w) (r @ [d])) ?names"
      let ?stack' = "map (\<lambda>d. r @ [d]) ?dirs @ rest"
      have same: "lookup (fs w) (r @ [m]) = lookup (fs w0) (r @ [m])" for m
        using Suc.prems(1) pr by (simp add: source_kept_def prefix_prefix)
      have names: "\<forall>m\<in>set ?nondirs. proper_name m \<and> path_exists (fs w0) (r @ [m]) \<and> \<not> isdir (fs w0) (r @ [m])"
      proof
        fix m assume m: "m \<in> set ?nondirs"
        then obtain val where "(r @ [m], val) \<in> set (fs w)" by (auto simp: names_in_iff)
        then have "lookup (fs w) (r @ [m]) \<noteq> None" by (rule in_set_lookup) simp
        with same have ex: "path_exists (fs w0) (r @ [m])" by (simp add: path_exists_def)
        then obtain val' where "(r @ [m], val') \<in> set (fs w0)"
          by (auto simp: path_exists_def dest: lookup_in)
        with wf have "proper_name m" by (fastforce simp: well_formed_def)
        moreover from m same have "\<not> isdir (fs w0) (r @ [m])" by (simp add: isdir_def)
        ultimately show "proper_name m \<and> path_exists (fs w0) (r @ [m]) \<and> \<not> isdir (fs w0) (r @ [m])"
          using ex by simp
      qed
      obtain r1 w1 where b: "for_each ?nondirs (copy_library bin dest r) w = (r1, w1)"
        by (cases "for_each ?nondirs (copy_library bin dest r) w")
      note loop = copy_loop_ok [OF wf apart pr Suc.prems(1) Suc.prems(2) names b]
      from loop have r1: "r1 = Inr ()" and k1: "source_kept bin w0 w1"
        and p1: "libraries_placed bin dest (fs w0) (fs w1)" by auto
      from Suc.prems(4) Cons True b r1 have run: "walk_for n ?stack' ?body w1 = Some (res, w')"
        by (simp add: Let_def)
      have st: "\<forall>s\<in>set ?stack'. prefix bin s"
        using Suc.prems(3) Cons pr by (auto simp: prefix_prefix)
      from Suc.IH [OF k1 p1 st run] show ?thesis .
    qed
  qed
qed

lemma replace_executable_ok:
  assumes d: "file_at (fs w) d \<noteq> None" and s: "file_at (fs w) s \<noteq> None"
    and ne: "s \<noteq> d" and par: "isdir (fs w) (butlast d)"
  shows "\<exists>w'. seq (when_fs (\<lambda>f. path_exists f d) (os_remove d)) (shutil_copy2 s d) w = (Inr (), w')"
proof -
  from d obtain old where old: "lookup (fs w) d = Some (F old)"
    by (auto simp: file_at_def split: option.splits node.splits)
  from s obtain c where c: "lookup (fs w) s = Some (F c)"
    by (auto simp: file_at_def split: option.splits node.splits)
  from old have dne: "d \<noteq> []" by (auto simp: lookup_def)
  then have bd: "butlast d \<noteq> d" by (metis append_butlast_last_id append_self_conv not_Cons_self2)
  let ?w1 = "w\<lparr>fs := AList.delete d (fs w)\<rparr>"
  have rm: "when_fs (\<lambda>f. path_exists f d) (os_remove d) w = (Inr (), ?w1)"
    using old by (simp add: when_fs_def path_exists_def os_remove_def)
  have l1: "lookup (fs ?w1) d = None" "lookup (fs ?w1) s = Some (F c)"
      "lookup (fs ?w1) (butlast d) = Some D"
    using dne ne c par bd by (simp_all add: lookup_delete isdir_def)
  then have "\<exists>w'. shutil_copy2 s d ?w1 = (Inr (), w')"
    using ne dne
    by (simp add: shutil_copy2_def Let_def isdir_def bind_def seq_def read_file_def open_wb_def
        parent_error_def put_def file_write_def lookup_update)
  with rm show ?thesis by (auto simp: seq_def bind_def)
qed

lemma update_server_succeeds:
  assumes exe: "proper_name (EXEC_FILE_NAME P)" "\<not> is_library (EXEC_FILE_NAME P)"
    and apart: "join ui ''server'' \<noteq> sf"
    and wf: "well_formed (fs w)"
    and ma: "mirrors_apart (join (join ui ''server'') (SERVER_BINARIES_LOCATION P))
                           (join sf (SERVER_BINARIES_LOCATION P)) (fs w)"
    and staged: "file_at (fs w) (join (join ui ''server'') (EXEC_FILE_NAME P)) \<noteq> None"
    and older: "file_at (fs w) (join sf (EXEC_FILE_NAME P)) \<noteq> None"
    and libs: "\<forall>e\<in>set (fs w). strict_prefix (join (join ui ''server'') (SERVER_BINARIES_LOCATION P)) (fst e)
                   \<and> snd e \<noteq> D \<and> is_library (basename (fst e)) \<longrightarrow>
                 file_at (fs w) (join sf (SERVER_BINARIES_LOCATION P)
                                  @ drop (length (join (join ui ''server'') (SERVER_BINARIES_LOCATION P))) (fst e)) \<noteq> None"
    and run: "update_server n P ui sf w = Some (res, w')"
  shows "res = Inr ()"
proof -
  let ?bin = "join (join ui ''server'') (SERVER_BINARIES_LOCATION P)"
  let ?dest = "join sf (SERVER_BINARIES_LOCATION P)"
  let ?d = "join sf (EXEC_FILE_NAME P)"
  let ?s = "join (join ui ''server'') (EXEC_FILE_NAME P)"
  from exe(1) have j: "join x (EXEC_FILE_NAME P) = x @ [EXEC_FILE_NAME P]" for x by (rule join_proper)
  have b: "basename (join x (EXEC_FILE_NAME P)) = EXEC_FILE_NAME P" for x
    by (simp add: j basename_def)
  have parent: "isdir (fs w) (butlast p)" if "file_at (fs w) p \<noteq> None" for p
  proof -
    from that obtain c where "lookup (fs w) p = Some (F c)"
      by (auto simp: file_at_def split: option.splits node.splits)
    moreover then have "p \<noteq> []" by (auto simp: lookup_def)
    ultimately have "(p, F c) \<in> set (fs w)" by (intro lookup_in)
    with wf show ?thesis by (fastforce simp: well_formed_def)
  qed
  have placed: "libraries_placed ?bin ?dest (fs w) (fs w)"
    unfolding libraries_placed_def using libs parent by blast
  from update_server_steps [OF run] obtain r1 w1 where
    walk: "walk_for n [?bin] (\<lambda>root dirs files. for_each files (copy_library ?bin ?dest root)) w = Some (r1, w1)"
    and rest: "(\<exists>e. r1 = Inl e \<and> res = Inl e \<and> w' = w1) \<or>
         (r1 = Inr () \<and>
          seq (when_fs (\<lambda>f. path_exists f ?d) (os_remove ?d)) (shutil_copy2 ?s ?d) w1 = (res, w'))"
    by blast
  have "r1 = Inr ()"
    by (rule library_walk_ok [OF wf ma source_kept_refl placed _ walk]) simp
  with rest have tail: "seq (when_fs (\<lambda>f. path_exists f ?d) (os_remove ?d)) (shutil_copy2 ?s ?d) w1 = (res, w')"
    by auto
  from library_walk_effect [OF walk] have eff: "effect (\<lambda>q. is_library (basename q)) (\<lambda>q. True) w w1" .
  from eff older have d1: "file_at (fs w1) ?d \<noteq> None" by (rule effect_file)
  from eff staged have s1: "file_at (fs w1) ?s \<noteq> None" by (rule effect_file)
  from eff parent [OF older] have p1: "isdir (fs w1) (butlast ?d)" by (rule effect_isdir)
  have ne: "?s \<noteq> ?d" using apart by (simp add: j)
  from replace_executable_ok [OF d1 s1 ne p1] tail show ?thesis by auto
qed

text \<open>
  C7.  Take a profile whose executable name is a proper file name that does not end in
  \<open>.dll\<close> or \<open>.so\<close>, a staged \<open>server\<close> folder that is not the server folder itself, a
  well-formed file system in which the place of no staged library lies inside the staged library
  folder or on a directory that holds it, and a bound on the walk above the size of the file
  system.  Then update_server ends, with a result or an exception, and
  \<^item> every file other than the installed executable and the places of the staged libraries
    (\<open>library_mirror\<close>: the same relative path under the library folder of the server
    folder) is exactly as before, whether the run succeeds or raises, and no directory is
    removed;
  \<^item> after a successful run the installed executable holds the bytes of the staged one;
  \<^item> after a successful run every staged library file is found, with the same bytes, at the
    same relative path under the library folder of the server folder, provided that place held
    no directory;
  \<^item> the installed executable is removed before the copy: when the library loop has finished
    and the staged executable is missing, the installed one is gone afterwards;
  \<^item> the run succeeds when the staged executable is a file, the server folder holds an older
    executable, and it holds an older file at the place of every staged library.
\<close>

theorem update_server_installs:
  assumes exe: "proper_name (EXEC_FILE_NAME P)" "\<not> is_library (EXEC_FILE_NAME P)"
    and apart: "join ui ''server'' \<noteq> sf"
    and wf: "well_formed (fs w)"
    and ma: "mirrors_apart (join (join ui ''server'') (SERVER_BINARIES_LOCATION P))
                           (join sf (SERVER_BINARIES_LOCATION P)) (fs w)"
    and fuel: "length (fs w) + 1 < n"
  shows "\<exists>res w'. update_server n P ui sf w = Some (res, w')
       \<and> (\<forall>p. p \<noteq> join sf (EXEC_FILE_NAME P) \<longrightarrow>
              \<not> library_mirror (join (join ui ''server'') (SERVER_BINARIES_LOCATION P))
                               (join sf (SERVER_BINARIES_LOCATION P)) (fs w) p \<longrightarrow>
              file_at (fs w') p = file_at (fs w) p)
       \<and> (\<forall>p. isdir (fs w) p \<longrightarrow> isdir (fs w') p)
       \<and> (res = Inr () \<longrightarrow>
            (\<exists>c. file_at (fs w) (join (join ui ''server'') (EXEC_FILE_NAME P)) = Some c
                 \<and> file_at (fs w') (join sf (EXEC_FILE_NAME P)) = Some c))
       \<and> (res = Inr () \<longrightarrow>
            (\<forall>rel c. rel \<noteq> [] \<longrightarrow> is_library (last rel) \<longrightarrow>
               file_at (fs w) (join (join ui ''server'') (SERVER_BINARIES_LOCATION P) @ rel) = Some c \<longrightarrow>
               \<not> isdir (fs w) (join sf (SERVER_BINARIES_LOCATION P) @ rel) \<longrightarrow>
               file_at (fs w') (join sf (SERVER_BINARIES_LOCATION P) @ rel) = Some c))
       \<and> ((\<exists>w1. walk_for n [join (join ui ''server'') (SERVER_BINARIES_LOCATION P)]
                   (\<lambda>root dirs files. for_each files
                      (copy_library (join (join ui ''server'') (SERVER_BINARIES_LOCATION P))
                                    (join sf (SERVER_BINARIES_LOCATION P)) root)) w = Some (Inr (), w1)) \<longrightarrow>
            file_at (fs w) (join (join ui ''server'') (EXEC_FILE_NAME P)) = None \<longrightarrow>
            file_at (fs w) (join sf (EXEC_FILE_NAME P)) \<noteq> None \<longrightarrow>
            \<not> path_exists (fs w') (join sf (EXEC_FILE_NAME P)))
       \<and> (file_at (fs w) (join (join ui ''server'') (EXEC_FILE_NAME P)) \<noteq> None \<longrightarrow>
          file_at (fs w) (join sf (EXEC_FILE_NAME P)) \<noteq> None \<longrightarrow>
          (\<forall>e\<in>set (fs w).
              strict_prefix (join (join ui ''server'') (SERVER_BINARIES_LOCATION P)) (fst e)
                \<and> snd e \<noteq> D \<and> is_library (basename (fst e)) \<longrightarrow>
              file_at (fs w) (join sf (SERVER_BINARIES_LOCATION P)
                    @ drop (length (join (join ui ''server'') (SERVER_BINARIES_LOCATION P))) (fst e)) \<noteq> None) \<longrightarrow>
          res = Inr ())"
proof -
  let ?bin = "join (join ui ''server'') (SERVER_BINARIES_LOCATION P)"
  let ?dest = "join sf (SERVER_BINARIES_LOCATION P)"
  from update_server_total [OF wf ma fuel] obtain res w' where
    run: "update_server n P ui sf w = Some (res, w')"
    and fr: "frame (\<lambda>p. p = join sf (EXEC_FILE_NAME P) \<or> library_mirror ?bin ?dest (fs w) p) w w'"
    by blast
  from exe(1) have j: "join x (EXEC_FILE_NAME P) = x @ [EXEC_FILE_NAME P]" for x by (rule join_proper)
  have b: "basename (join x (EXEC_FILE_NAME P)) = EXEC_FILE_NAME P" for x
    by (simp add: j basename_def)
  have 1: "\<forall>p. p \<noteq> join sf (EXEC_FILE_NAME P) \<longrightarrow> \<not> library_mirror ?bin ?dest (fs w) p \<longrightarrow>
              file_at (fs w') p = file_at (fs w) p"
    using fr frame_file_at by blast
  have 2: "\<forall>p. isdir (fs w) p \<longrightarrow> isdir (fs w') p"
    using update_server_frame(2) [OF run] by blast
  have ne: "join (join ui ''server'') (EXEC_FILE_NAME P) \<noteq> join sf (EXEC_FILE_NAME P)"
    using apart by (simp add: j)
  have 3: "res = Inr () \<longrightarrow>
            (\<exists>c. file_at (fs w) (join (join ui ''server'') (EXEC_FILE_NAME P)) = Some c
                 \<and> file_at (fs w') (join sf (EXEC_FILE_NAME P)) = Some c)"
  proof
    assume "res = Inr ()"
    with run have "update_server n P ui sf w = Some (Inr (), w')" by simp
    then show "\<exists>c. file_at (fs w) (join (join ui ''server'') (EXEC_FILE_NAME P)) = Some c
                 \<and> file_at (fs w') (join sf (EXEC_FILE_NAME P)) = Some c"
      using exe(2) ne by (intro update_server_executable) (simp_all add: b)
  qed
  have 4: "res = Inr () \<longrightarrow>
            (\<forall>rel c. rel \<noteq> [] \<longrightarrow> is_library (last rel) \<longrightarrow>
               file_at (fs w) (?bin @ rel) = Some c \<longrightarrow>
               \<not> isdir (fs w) (?dest @ rel) \<longrightarrow>
               file_at (fs w') (?dest @ rel) = Some c)"
  proof (intro impI allI)
    fix rel c
    assume "res = Inr ()"
      and rel: "rel \<noteq> []" "is_library (last rel)"
      and q: "file_at (fs w) (?bin @ rel) = Some c"
      and nd: "\<not> isdir (fs w) (?dest @ rel)"
    with run have ok: "update_server n P ui sf w = Some (Inr (), w')" by simp
    from exe(2) have "\<not> is_library (basename (join sf (EXEC_FILE_NAME P)))" by (simp add: b)
    from update_server_library [OF ok wf ma q rel nd this]
    show "file_at (fs w') (?dest @ rel) = Some c" .
  qed
  have 5: "(\<exists>w1. walk_for n [?bin]
                   (\<lambda>root dirs files. for_each files (copy_library ?bin ?dest root)) w = Some (Inr (), w1)) \<longrightarrow>
            file_at (fs w) (join (join ui ''server'') (EXEC_FILE_NAME P)) = None \<longrightarrow>
            file_at (fs w) (join sf (EXEC_FILE_NAME P)) \<noteq> None \<longrightarrow>
            \<not> path_exists (fs w') (join sf (EXEC_FILE_NAME P))"
  proof (intro impI)
    assume "\<exists>w1. walk_for n [?bin]
                   (\<lambda>root dirs files. for_each files (copy_library ?bin ?dest root)) w = Some (Inr (), w1)"
    then obtain w1 where walk: "walk_for n [?bin]
                   (\<lambda>root dirs files. for_each files (copy_library ?bin ?dest root)) w = Some (Inr (), w1)" ..
    assume s: "file_at (fs w) (join (join ui ''server'') (EXEC_FILE_NAME P)) = None"
      and d: "file_at (fs w) (join sf (EXEC_FILE_NAME P)) \<noteq> None"
    from run walk have tail:
      "seq (when_fs (\<lambda>f. path_exists f (join sf (EXEC_FILE_NAME P))) (os_remove (join sf (EXEC_FILE_NAME P))))
           (shutil_copy2 (join (join ui ''server'') (EXEC_FILE_NAME P)) (join sf (EXEC_FILE_NAME P))) w1
         = (res, w')"
      by (simp add: update_server_def Let_def pseq_def pbind_def total_def)
    from library_walk_effect [OF walk] have fr: "frame (\<lambda>q. is_library (basename q)) w w1"
      by (rule effect_frame)
    from exe(2) have "file_at (fs w1) (join (join ui ''server'') (EXEC_FILE_NAME P))
                      = file_at (fs w) (join (join ui ''server'') (EXEC_FILE_NAME P))"
      by (intro frame_file_at [OF fr]) (simp add: b)
    moreover from exe(2) have "file_at (fs w1) (join sf (EXEC_FILE_NAME P))
                      = file_at (fs w) (join sf (EXEC_FILE_NAME P))"
      by (intro frame_file_at [OF fr]) (simp add: b)
    ultimately show "\<not> path_exists (fs w') (join sf (EXEC_FILE_NAME P))"
      using replace_executable [OF tail] s d by simp
  qed
  have 6: "file_at (fs w) (join (join ui ''server'') (EXEC_FILE_NAME P)) \<noteq> None \<longrightarrow>
          file_at (fs w) (join sf (EXEC_FILE_NAME P)) \<noteq> None \<longrightarrow>
          (\<forall>e\<in>set (fs w). strict_prefix ?bin (fst e) \<and> snd e \<noteq> D \<and> is_library (basename (fst e)) \<longrightarrow>
              file_at (fs w) (?dest @ drop (length ?bin) (fst e)) \<noteq> None) \<longrightarrow>
          res = Inr ()"
  proof (intro impI)
    assume staged: "file_at (fs w) (join (join ui ''server'') (EXEC_FILE_NAME P)) \<noteq> None"
      and older: "file_at (fs w) (join sf (EXEC_FILE_NAME P)) \<noteq> None"
      and libs: "\<forall>e\<in>set (fs w). strict_prefix ?bin (fst e) \<and> snd e \<noteq> D \<and> is_library (basename (fst e)) \<longrightarrow>
              file_at (fs w) (?dest @ drop (length ?bin) (fst e)) \<noteq> None"
    from exe apart wf ma staged older libs run show "res = Inr ()"
      by (rule update_server_succeeds)
  qed
  from run 1 2 3 4 5 6 show ?thesis by (intro exI conjI)
qed

lemma update_server_example:
  "update_server 13 linux64 [''srv'', ''mta'', ''updateinfo''] [''srv'', ''mta''] ready_world
     = Some (Inr (), installed_world)"
  by (simp add: update_server_def linux64_def ready_world_def installed_world_def Let_def
      join_def path_of_def pseq_def pbind_def total_def eval_nat_numeral isdir_def lookup_def
      names_in_def copy_library_def is_library_def endswith_def suffix_to_prefix
      seq_def bind_def ret_def relpath_def when_fs_def path_exists_def dirname_def
      shutil_copy2_def basename_def read_file_def open_wb_def put_def file_write_def os_remove_def
      parent_error_def)

theorem update_server_installs_witness:
  "update_server 13 linux64 [''srv'', ''mta'', ''updateinfo''] [''srv'', ''mta''] ready_world
     = Some (Inr (), installed_world)
   \<and> file_at (fs installed_world) [''srv'', ''mta'', ''config.xml''] = Some ''settings''
   \<and> file_at (fs installed_world) [''srv'', ''mta'', ''mta-server64''] = Some ''new server''
   \<and> file_at (fs installed_world) [''srv'', ''mta'', ''x64'', ''a.so''] = Some ''new library''
   \<and> file_at (fs ready_world) [''srv'', ''mta'', ''mta-server64''] = Some ''old server''
   \<and> file_at (fs ready_world) [''srv'', ''mta'', ''x64'', ''a.so''] = Some ''old library''"
proof -
  have run: "update_server 13 linux64 [''srv'', ''mta'', ''updateinfo''] [''srv'', ''mta''] ready_world
     = Some (Inr (), installed_world)" by (rule update_server_example)
  have exe: "proper_name (EXEC_FILE_NAME linux64)" "\<not> is_library (EXEC_FILE_NAME linux64)"
    by (simp_all add: linux64_def proper_name_def is_library_def endswith_def suffix_to_prefix)
  have apart: "join [''srv'', ''mta'', ''updateinfo''] ''server'' \<noteq> [''srv'', ''mta'']"
    by (simp add: join_def path_of_def)
  have wf: "well_formed (fs ready_world)"
    by (simp add: ready_world_def well_formed_def proper_name_def isdir_def lookup_def)
  have fuel: "length (fs ready_world) + 1 < 13" by (simp add: ready_world_def)
  have bin: "join (join [''srv'', ''mta'', ''updateinfo''] ''server'') (SERVER_BINARIES_LOCATION linux64)
             = [''srv'', ''mta'', ''updateinfo'', ''server'', ''x64'']"
    and dest: "join [''srv'', ''mta''] (SERVER_BINARIES_LOCATION linux64) = [''srv'', ''mta'', ''x64'']"
    and dexe: "join [''srv'', ''mta''] (EXEC_FILE_NAME linux64) = [''srv'', ''mta'', ''mta-server64'']"
    and sexe: "join (join [''srv'', ''mta'', ''updateinfo''] ''server'') (EXEC_FILE_NAME linux64)
             = [''srv'', ''mta'', ''updateinfo'', ''server'', ''mta-server64'']"
    by (simp_all add: join_def path_of_def linux64_def)
  have ma: "mirrors_apart (join (join [''srv'', ''mta'', ''updateinfo''] ''server'') (SERVER_BINARIES_LOCATION linux64))
              (join [''srv'', ''mta''] (SERVER_BINARIES_LOCATION linux64)) (fs ready_world)"
    unfolding bin dest
    by (simp add: mirrors_apart_def ready_world_def basename_def is_library_def endswith_def
        suffix_to_prefix)
  have old: "file_at (fs ready_world) [''srv'', ''mta'', ''config.xml''] = Some ''settings''"
      "file_at (fs ready_world) [''srv'', ''mta'', ''updateinfo'', ''server'', ''x64'', ''a.so''] = Some ''new library''"
      "file_at (fs ready_world) [''srv'', ''mta'', ''updateinfo'', ''server'', ''mta-server64''] = Some ''new server''"
      "\<not> isdir (fs ready_world) [''srv'', ''mta'', ''x64'', ''a.so'']"
      "file_at (fs ready_world) [''srv'', ''mta'', ''mta-server64''] = Some ''old server''"
      "file_at (fs ready_world) [''srv'', ''mta'', ''x64'', ''a.so''] = Some ''old library''"
    by (simp_all add: ready_world_def file_at_def lookup_def isdir_def)
  have lib: "is_library (last [''a.so''])"
    by (simp add: is_library_def endswith_def suffix_to_prefix)
  have nm: "\<not> library_mirror [''srv'', ''mta'', ''updateinfo'', ''server'', ''x64'']
               [''srv'', ''mta'', ''x64''] (fs ready_world) [''srv'', ''mta'', ''config.xml'']"
    by (simp add: library_mirror_def ready_world_def basename_def is_library_def endswith_def
        suffix_to_prefix)
  from update_server_installs [OF exe apart wf ma fuel, unfolded bin dest dexe sexe]
  obtain res w' where r: "update_server 13 linux64 [''srv'', ''mta'', ''updateinfo''] [''srv'', ''mta''] ready_world
        = Some (res, w')"
    and a1: "\<forall>p. p \<noteq> [''srv'', ''mta'', ''mta-server64''] \<longrightarrow>
              \<not> library_mirror [''srv'', ''mta'', ''updateinfo'', ''server'', ''x64'']
                               [''srv'', ''mta'', ''x64''] (fs ready_world) p \<longrightarrow>
              file_at (fs w') p = file_at (fs ready_world) p"
    and a3: "res = Inr () \<longrightarrow>
       (\<exists>c. file_at (fs ready_world) [''srv'', ''mta'', ''updateinfo'', ''server'', ''mta-server64''] = Some c
                 \<and> file_at (fs w') [''srv'', ''mta'', ''mta-server64''] = Some c)"
    and a4: "res = Inr () \<longrightarrow>
       (\<forall>rel c. rel \<noteq> [] \<longrightarrow> is_library (last rel) \<longrightarrow>
               file_at (fs ready_world) ([''srv'', ''mta'', ''updateinfo'', ''server'', ''x64''] @ rel) = Some c \<longrightarrow>
               \<not> isdir (fs ready_world) ([''srv'', ''mta'', ''x64''] @ rel) \<longrightarrow>
               file_at (fs w') ([''srv'', ''mta'', ''x64''] @ rel) = Some c)"
    and a6: "file_at (fs ready_world) [''srv'', ''mta'', ''updateinfo'', ''server'', ''mta-server64''] \<noteq> None \<longrightarrow>
          file_at (fs ready_world) [''srv'', ''mta'', ''mta-server64''] \<noteq> None \<longrightarrow>
          (\<forall>e\<in>set (fs ready_world).
              strict_prefix [''srv'', ''mta'', ''updateinfo'', ''server'', ''x64''] (fst e)
                \<and> snd e \<noteq> D \<and> is_library (basename (fst e)) \<longrightarrow>
              file_at (fs ready_world) ([''srv'', ''mta'', ''x64'']
                    @ drop (length [''srv'', ''mta'', ''updateinfo'', ''server'', ''x64'']) (fst e)) \<noteq> None) \<longrightarrow>
          res = Inr ()"
    by (elim exE conjE) (rule that, assumption+)
  have placed: "\<forall>e\<in>set (fs ready_world).
              strict_prefix [''srv'', ''mta'', ''updateinfo'', ''server'', ''x64''] (fst e)
                \<and> snd e \<noteq> D \<and> is_library (basename (fst e)) \<longrightarrow>
              file_at (fs ready_world) ([''srv'', ''mta'', ''x64'']
                    @ drop (length [''srv'', ''mta'', ''updateinfo'', ''server'', ''x64'']) (fst e)) \<noteq> None"
    by (simp add: ready_world_def file_at_def lookup_def basename_def is_library_def endswith_def
        suffix_to_prefix)
  from a6 old(3) old(5) placed have ok: "res = Inr ()" by simp
  from r run have eq: "res = Inr ()" "w' = installed_world" by simp_all
  note t1 = a1 [unfolded eq, rule_format, of "[''srv'', ''mta'', ''config.xml'']"]
  note t3 = a3 [unfolded eq, rule_format, OF refl]
  note t4 = a4 [unfolded eq, rule_format, OF refl, of "[''a.so'']" "''new library''"]
  have "file_at (fs installed_world) [''srv'', ''mta'', ''config.xml'']
               = file_at (fs ready_world) [''srv'', ''mta'', ''config.xml'']"
    by (rule t1) (simp_all add: nm)
  moreover from t3 old(3) have "file_at (fs installed_world) [''srv'', ''mta'', ''mta-server64''] = Some ''new server''"
    by auto
  moreover have "file_at (fs installed_world) ([''srv'', ''mta'', ''x64''] @ [''a.so'']) = Some ''new library''"
    by (rule t4) (use lib old in simp_all)
  ultimately show ?thesis using old r ok eq(2) by simp
qed

end
